theory Spec2Isabelle
  imports Main
begin

section \<open>The block puzzle engine of src/pages/BlockGame.jsx\<close>

text \<open>
  A shallow embedding of the game logic of \<^verbatim>\<open>BlockGame.jsx\<close>: the piece catalog, the
  8 by 8 grid, \<^verbatim>\<open>canPlace\<close>, \<^verbatim>\<open>hasAnyMove\<close>, \<^verbatim>\<open>selectPiece\<close>, \<^verbatim>\<open>drop\<close>, \<^verbatim>\<open>clearLines\<close>
  with its delayed callback, and \<^verbatim>\<open>startGame\<close>.

  The numbers of the game are integers, far below the 2^53 up to which the doubles of
  JavaScript are exact: they are modelled as \<open>int\<close> (coordinates, which the guards
  compare with 0) and \<open>nat\<close> (counters that only grow from 0). A grid cell is \<^verbatim>\<open>null\<close>
  or a colour string: \<open>string option\<close>. The draws of \<^verbatim>\<open>Math.random\<close>, the content of
  \<^verbatim>\<open>localStorage\<close> and the firing of the timer are inputs of the model. Rendering
  (\<^verbatim>\<open>rerender\<close>, the hover preview) is left out.
\<close>

subsection \<open>Catalog and grid\<close>

definition GRID_SIZE :: nat where
  "GRID_SIZE = 8"

record piece =
  cells :: "(int \<times> int) list"
  color :: string

definition PIECES :: "piece list" where
  "PIECES = [
    \<lparr>cells = [(0,0)], color = ''#f472b6''\<rparr>,
    \<lparr>cells = [(0,0),(0,1)], color = ''#4ade80''\<rparr>,
    \<lparr>cells = [(0,0),(1,0)], color = ''#4ade80''\<rparr>,
    \<lparr>cells = [(0,0),(0,1),(0,2)], color = ''#60a5fa''\<rparr>,
    \<lparr>cells = [(0,0),(1,0),(2,0)], color = ''#60a5fa''\<rparr>,
    \<lparr>cells = [(0,0),(0,1),(0,2),(0,3)], color = ''#22d3ee''\<rparr>,
    \<lparr>cells = [(0,0),(1,0),(2,0),(3,0)], color = ''#22d3ee''\<rparr>,
    \<lparr>cells = [(0,0),(0,1),(0,2),(0,3),(0,4)], color = ''#a3e635''\<rparr>,
    \<lparr>cells = [(0,0),(1,0),(2,0),(3,0),(4,0)], color = ''#a3e635''\<rparr>,
    \<lparr>cells = [(0,0),(0,1),(1,0),(1,1)], color = ''#fbbf24''\<rparr>,
    \<lparr>cells = [(0,0),(0,1),(0,2),(1,0),(1,1),(1,2),(2,0),(2,1),(2,2)], color = ''#fde047''\<rparr>,
    \<lparr>cells = [(0,0),(0,1),(0,2),(1,0),(1,1),(1,2)], color = ''#fb923c''\<rparr>,
    \<lparr>cells = [(0,0),(0,1),(1,0),(1,1),(2,0),(2,1)], color = ''#fb923c''\<rparr>,
    \<lparr>cells = [(0,0),(1,0),(2,0),(2,1)], color = ''#c084fc''\<rparr>,
    \<lparr>cells = [(0,1),(1,1),(2,0),(2,1)], color = ''#c084fc''\<rparr>,
    \<lparr>cells = [(0,0),(0,1),(1,0),(2,0)], color = ''#c084fc''\<rparr>,
    \<lparr>cells = [(0,0),(0,1),(1,1),(2,1)], color = ''#c084fc''\<rparr>,
    \<lparr>cells = [(0,0),(0,1),(0,2),(1,1)], color = ''#e879f9''\<rparr>,
    \<lparr>cells = [(0,0),(1,0),(2,0),(1,1)], color = ''#e879f9''\<rparr>,
    \<lparr>cells = [(0,1),(0,2),(1,0),(1,1)], color = ''#f87171''\<rparr>,
    \<lparr>cells = [(0,0),(0,1),(1,1),(1,2)], color = ''#f87171''\<rparr>,
    \<lparr>cells = [(0,1),(1,0),(1,1),(1,2),(2,1)], color = ''#38bdf8''\<rparr>,
    \<lparr>cells = [(0,0),(0,1),(1,0)], color = ''#34d399''\<rparr>,
    \<lparr>cells = [(0,0),(0,1),(1,1)], color = ''#34d399''\<rparr>,
    \<lparr>cells = [(0,0),(1,0),(1,1)], color = ''#34d399''\<rparr>,
    \<lparr>cells = [(0,1),(1,0),(1,1)], color = ''#34d399''\<rparr>
  ]"

text \<open>
  \<^verbatim>\<open>randPiece\<close> reads \<^verbatim>\<open>PIECES[Math.floor(Math.random() * PIECES.length)]\<close>; the index
  drawn is the argument. \<^verbatim>\<open>Math.random\<close> is below 1, so the index is below the length.
\<close>

definition randPiece :: "nat \<Rightarrow> piece" where
  "randPiece i = PIECES ! i"

text \<open>
  What the code relies on in a shape of the catalog: it has cells, no cell twice, a
  colour that is not the empty string, offsets inside the grid, and a cell in row 0 and
  a cell in column 0 of its offsets.
\<close>

definition wf_shape :: "piece \<Rightarrow> bool" where
  "wf_shape p =
     (cells p \<noteq> [] \<and> distinct (cells p) \<and> color p \<noteq> [] \<and>
      list_all (\<lambda>(dr, dc). 0 \<le> dr \<and> dr < int GRID_SIZE \<and> 0 \<le> dc \<and> dc < int GRID_SIZE) (cells p) \<and>
      list_ex (\<lambda>(dr, dc). dr = 0) (cells p) \<and> list_ex (\<lambda>(dr, dc). dc = 0) (cells p))"

type_synonym cell = "string option"
type_synonym grid = "cell list list"

definition makeGrid :: grid where
  "makeGrid = replicate GRID_SIZE (replicate GRID_SIZE None)"

text \<open>JavaScript truthiness of a cell: \<^verbatim>\<open>null\<close> and the empty string are falsy.\<close>

definition truthy :: "cell \<Rightarrow> bool" where
  "truthy v = (case v of None \<Rightarrow> False | Some s \<Rightarrow> s \<noteq> [])"

text \<open>
  The grids of the program are made by \<^verbatim>\<open>makeGrid\<close> and written cell by cell: 8 rows of
  8 cells, each \<^verbatim>\<open>null\<close> or a colour of the catalog (never the empty string).
\<close>

definition wf_grid :: "grid \<Rightarrow> bool" where
  "wf_grid gr =
     (length gr = GRID_SIZE \<and>
      list_all (\<lambda>row. length row = GRID_SIZE \<and> list_all (\<lambda>v. v \<noteq> Some []) row) gr)"

text \<open>The shape of such a grid alone.\<close>

definition dims :: "grid \<Rightarrow> bool" where
  "dims gr = (length gr = GRID_SIZE \<and> (\<forall>a < GRID_SIZE. length (gr ! a) = GRID_SIZE))"

subsection \<open>canPlace and hasAnyMove\<close>

text \<open>
  The loop of \<^verbatim>\<open>canPlace\<close> over \<^verbatim>\<open>piece.cells\<close>: the first cell that is out of the grid
  or on a truthy cell returns false. The grid is read, never written.
\<close>

fun canPlaceCells :: "grid \<Rightarrow> (int \<times> int) list \<Rightarrow> int \<Rightarrow> int \<Rightarrow> bool" where
  "canPlaceCells gr [] sr sc = True"
| "canPlaceCells gr ((dr, dc) # rest) sr sc =
     (let r = sr + dr; c = sc + dc in
      if r < 0 \<or> r \<ge> int GRID_SIZE \<or> c < 0 \<or> c \<ge> int GRID_SIZE
         \<or> truthy (gr ! nat r ! nat c)
      then False
      else canPlaceCells gr rest sr sc)"

definition canPlace :: "grid \<Rightarrow> piece \<Rightarrow> int \<Rightarrow> int \<Rightarrow> bool" where
  "canPlace gr p sr sc = canPlaceCells gr (cells p) sr sc"

fun hasAnyMove :: "grid \<Rightarrow> piece option list \<Rightarrow> bool" where
  "hasAnyMove gr [] = False"
| "hasAnyMove gr (None # ps) = hasAnyMove gr ps"
| "hasAnyMove gr (Some p # ps) =
     (if list_ex (\<lambda>r. list_ex (\<lambda>c. canPlace gr p (int r) (int c)) [0..<GRID_SIZE])
           [0..<GRID_SIZE]
      then True
      else hasAnyMove gr ps)"

subsection \<open>The state object\<close>

text \<open>
  The object \<^verbatim>\<open>startGame\<close> stores in \<^verbatim>\<open>G.current\<close>. \<^verbatim>\<open>gameOverMsg\<close> is a text built from
  the final score and the flag \<^verbatim>\<open>isNew\<close>; the model keeps the two values. \<^verbatim>\<open>flashCells\<close>
  is a \<^verbatim>\<open>Set\<close> of the keys \<^verbatim>\<open>r*GRID_SIZE+c\<close>. The key \<^verbatim>\<open>bb_best\<close> of \<^verbatim>\<open>localStorage\<close>
  is absent or holds a number.
\<close>

record game =
  grid :: grid
  score :: nat
  linesCleared :: nat
  streak :: nat
  pieces :: "piece option list"
  selIdx :: "nat option"
  hoverR :: "int option"
  hoverC :: "int option"
  placing :: bool
  flashCells :: "nat set"
  gameOverMsg :: "(nat \<times> bool) option"
  comboText :: string
  best :: nat

type_synonym storage = "nat option"
type_synonym draws = "nat \<times> nat \<times> nat"

definition freshTray :: "draws \<Rightarrow> piece option list" where
  "freshTray d = (case d of (i, j, k) \<Rightarrow> [Some (randPiece i), Some (randPiece j), Some (randPiece k)])"

definition readBest :: "storage \<Rightarrow> nat" where
  "readBest st = (case st of None \<Rightarrow> 0 | Some b \<Rightarrow> b)"

definition startGame :: "draws \<Rightarrow> storage \<Rightarrow> game" where
  "startGame d st =
     \<lparr>grid = makeGrid, score = 0, linesCleared = 0, streak = 0, pieces = freshTray d,
      selIdx = None, hoverR = None, hoverC = None, placing = False, flashCells = {},
      gameOverMsg = None, comboText = [], best = readBest st\<rparr>"

text \<open>Reading \<^verbatim>\<open>g.pieces[idx]\<close>: past the end the array gives \<^verbatim>\<open>undefined\<close>, falsy like \<^verbatim>\<open>null\<close>.\<close>

definition slot :: "piece option list \<Rightarrow> nat \<Rightarrow> piece option" where
  "slot ps i = (if i < length ps then ps ! i else None)"

subsection \<open>selectPiece\<close>

definition selectPiece :: "nat \<Rightarrow> game \<Rightarrow> game" where
  "selectPiece idx g =
     (if slot (pieces g) idx = None then g
      else g\<lparr>selIdx := (if selIdx g = Some idx then None else Some idx)\<rparr>)"

subsection \<open>The callback of drop\<close>

text \<open>\<^verbatim>\<open>if (g.score > g.best) { g.best = g.score; localStorage.setItem('bb_best', g.best) }\<close>\<close>

definition saveBest :: "game \<times> storage \<Rightarrow> game \<times> storage" where
  "saveBest gs =
     (case gs of (g, st) \<Rightarrow>
        if score g > best g then (g\<lparr>best := score g\<rparr>, Some (score g)) else (g, st))"

text \<open>
  The arrow function \<^verbatim>\<open>drop\<close> hands to \<^verbatim>\<open>clearLines\<close> (its parameter \<^verbatim>\<open>done\<close>): it ends the
  placement, refills the tray, saves the best score and looks for a move.
\<close>

definition doneCallback :: "draws \<Rightarrow> game \<times> storage \<Rightarrow> game \<times> storage" where
  "doneCallback d gs =
     (case gs of (g, st) \<Rightarrow>
        let g1 = g\<lparr>placing := False\<rparr>;
            g2 = (if list_all (\<lambda>x. x = None) (pieces g1) then g1\<lparr>pieces := freshTray d\<rparr> else g1);
            (g3, st3) = saveBest (g2, st)
        in if \<not> hasAnyMove (grid g3) (pieces g3)
           then (let (g4, st4) = saveBest (g3, st3);
                     isNew = (score g4 \<ge> best g4 \<and> score g4 > 0)
                 in (g4\<lparr>gameOverMsg := Some (score g4, isNew)\<rparr>, st4))
           else (g3, st3))"

subsection \<open>clearLines\<close>

definition rowsToClear :: "grid \<Rightarrow> nat list" where
  "rowsToClear gr = filter (\<lambda>r. list_all truthy (gr ! r)) [0..<GRID_SIZE]"

definition colsToClear :: "grid \<Rightarrow> nat list" where
  "colsToClear gr = filter (\<lambda>c. list_all (\<lambda>row. truthy (row ! c)) gr) [0..<GRID_SIZE]"

text \<open>The number \<^verbatim>\<open>count\<close> of \<^verbatim>\<open>clearLines\<close>.\<close>

definition lineCount :: "grid \<Rightarrow> nat" where
  "lineCount gr = length (rowsToClear gr) + length (colsToClear gr)"

definition labels :: "string list" where
  "labels = [[], [], ''DOUBLE!'', ''TRIPLE!'', ''QUAD!'', ''MEGA COMBO!'']"

fun decimal :: "nat \<Rightarrow> string" where
  "decimal n =
     (if n < 10 then [char_of (48 + n)] else decimal (n div 10) @ [char_of (48 + n mod 10)])"

text \<open>The banner text; the character before \<^verbatim>\<open>COMBO!\<close> is the multiplication sign U+00D7.\<close>

definition comboLabel :: "nat \<Rightarrow> string" where
  "comboLabel s =
     (if s > 1
      then (let l = labels ! min s (length labels - 1)
            in if l \<noteq> [] then l else decimal s @ [char_of (215::nat)] @ '' COMBO!'')
      else [])"

definition toFlash :: "nat list \<Rightarrow> nat list \<Rightarrow> nat set" where
  "toFlash rs cs =
     fold (\<lambda>c S. fold (\<lambda>r S. insert (r * GRID_SIZE + c) S) [0..<GRID_SIZE] S) cs
       (fold (\<lambda>r S. fold (\<lambda>c S. insert (r * GRID_SIZE + c) S) [0..<GRID_SIZE] S) rs {})"

text \<open>
  The synchronous part of \<^verbatim>\<open>clearLines\<close>. With no full line the callback runs at once and
  no timer is set; otherwise the result carries the rows and columns the timer will clear.
\<close>

definition clearLines ::
  "draws \<Rightarrow> game \<times> storage \<Rightarrow> (game \<times> storage) \<times> (nat list \<times> nat list) option" where
  "clearLines d gs =
     (case gs of (g, st) \<Rightarrow>
        let rs = rowsToClear (grid g);
            cs = colsToClear (grid g);
            count = length rs + length cs
        in if count = 0 then (doneCallback d (g\<lparr>streak := 0, comboText := []\<rparr>, st), None)
           else
             (let g1 = g\<lparr>streak := streak g + 1\<rparr>;
                  bonus = (if streak g1 > 1 then streak g1 else 1);
                  pts = count * GRID_SIZE * 10 * bonus;
                  g2 = g1\<lparr>score := score g1 + pts, linesCleared := linesCleared g1 + count\<rparr>;
                  (g3, st3) = saveBest (g2, st);
                  g4 = g3\<lparr>comboText := comboLabel (streak g3), flashCells := toFlash rs cs\<rparr>
              in ((g4, st3), Some (rs, cs))))"

text \<open>Writing a cell, \<^verbatim>\<open>g.grid[r][c] = v\<close>, at indices inside the grid.\<close>

definition setCell :: "grid \<Rightarrow> nat \<Rightarrow> nat \<Rightarrow> cell \<Rightarrow> grid" where
  "setCell gr r c v = gr[r := (gr ! r)[c := v]]"

definition clearCells :: "grid \<Rightarrow> nat list \<Rightarrow> nat list \<Rightarrow> grid" where
  "clearCells gr rs cs =
     fold (\<lambda>c gr. fold (\<lambda>r gr. setCell gr r c None) [0..<GRID_SIZE] gr) cs
       (fold (\<lambda>r gr. fold (\<lambda>c gr. setCell gr r c None) [0..<GRID_SIZE] gr) rs gr)"

text \<open>The function given to \<^verbatim>\<open>setTimeout\<close>: it clears the lines and runs the callback.\<close>

definition onTimeout :: "nat list \<Rightarrow> nat list \<Rightarrow> draws \<Rightarrow> game \<times> storage \<Rightarrow> game \<times> storage" where
  "onTimeout rs cs d gs =
     (case gs of (g, st) \<Rightarrow>
        doneCallback d (g\<lparr>grid := clearCells (grid g) rs cs, flashCells := {}, comboText := []\<rparr>, st))"

subsection \<open>drop\<close>

text \<open>The loop \<^verbatim>\<open>for (const [dr,dc] of p.cells) g.grid[r+dr][c+dc] = p.color\<close>.\<close>

fun fillCells :: "grid \<Rightarrow> (int \<times> int) list \<Rightarrow> int \<Rightarrow> int \<Rightarrow> string \<Rightarrow> grid" where
  "fillCells gr [] r c col = gr"
| "fillCells gr ((dr, dc) # rest) r c col =
     fillCells (setCell gr (nat (r + dr)) (nat (c + dc)) (Some col)) rest r c col"

text \<open>
  The placement step of \<^verbatim>\<open>drop\<close>, from \<^verbatim>\<open>g.placing = true\<close> to \<^verbatim>\<open>g.selIdx = null\<close>.
  \<^verbatim>\<open>drop\<close> reaches it after \<^verbatim>\<open>canPlace\<close> has accepted the shape of slot \<open>i\<close>, so every
  write is at indices inside the grid and inside the tray.
\<close>

definition place :: "game \<Rightarrow> nat \<Rightarrow> piece \<Rightarrow> int \<Rightarrow> int \<Rightarrow> game" where
  "place g i p r c =
     g\<lparr>placing := True,
       grid := fillCells (grid g) (cells p) r c (color p),
       score := score g + length (cells p),
       pieces := (pieces g)[i := None],
       selIdx := None\<rparr>"

text \<open>
  \<^verbatim>\<open>drop\<close> (named \<open>dropAt\<close>: \<open>drop\<close> is a list function of HOL). Reading \<^verbatim>\<open>p.cells\<close> of an
  empty slot throws a \<^verbatim>\<open>TypeError\<close> before anything is written.
\<close>

datatype error = TypeError

definition dropAt ::
  "int \<Rightarrow> int \<Rightarrow> draws \<Rightarrow> game \<times> storage
     \<Rightarrow> error + ((game \<times> storage) \<times> (nat list \<times> nat list) option)" where
  "dropAt r c d gs =
     (case gs of (g, st) \<Rightarrow>
        if placing g then Inr (gs, None)
        else (case selIdx g of
                None \<Rightarrow> Inr (gs, None)
              | Some i \<Rightarrow>
                  (case slot (pieces g) i of
                     None \<Rightarrow> Inl TypeError
                   | Some p \<Rightarrow>
                       if \<not> canPlace (grid g) p r c then Inr (gs, None)
                       else Inr (clearLines d (place g i p r c, st)))))"

subsection \<open>The page: state objects, the reference G and the timers\<close>

text \<open>
  \<^verbatim>\<open>G.current\<close> points to the state object of the running game; \<^verbatim>\<open>startGame\<close> makes a new
  object and points \<^verbatim>\<open>G.current\<close> to it. The callbacks of \<^verbatim>\<open>drop\<close> and \<^verbatim>\<open>clearLines\<close> hold
  the object that was current when \<^verbatim>\<open>drop\<close> ran (the constant \<^verbatim>\<open>g\<close> of each closure). So
  the objects live in a store, a timer keeps the address of its object, and the events
  of the page are steps on the store.
\<close>

record timer =
  target :: nat
  rows :: "nat list"
  cols :: "nat list"

record world =
  heap :: "game list"
  current :: "nat option"
  timers :: "timer list"
  bb_best :: storage

definition initial :: "storage \<Rightarrow> world" where
  "initial st = \<lparr>heap = [], current = None, timers = [], bb_best = st\<rparr>"

definition startGameW :: "draws \<Rightarrow> world \<Rightarrow> world" where
  "startGameW d w =
     w\<lparr>heap := heap w @ [startGame d (bb_best w)], current := Some (length (heap w))\<rparr>"

definition selectPieceW :: "nat \<Rightarrow> world \<Rightarrow> world" where
  "selectPieceW idx w =
     (case current w of
        None \<Rightarrow> w
      | Some a \<Rightarrow> w\<lparr>heap := (heap w)[a := selectPiece idx (heap w ! a)]\<rparr>)"

text \<open>The key handler: Escape clears the selection.\<close>

definition escapeW :: "world \<Rightarrow> world" where
  "escapeW w =
     (case current w of
        None \<Rightarrow> w
      | Some a \<Rightarrow> w\<lparr>heap := (heap w)[a := (heap w ! a)\<lparr>selIdx := None\<rparr>]\<rparr>)"

definition dropW :: "int \<Rightarrow> int \<Rightarrow> draws \<Rightarrow> world \<Rightarrow> world" where
  "dropW r c d w =
     (case current w of
        None \<Rightarrow> w
      | Some a \<Rightarrow>
          (case dropAt r c d (heap w ! a, bb_best w) of
             Inl e \<Rightarrow> w
           | Inr ((g', st'), pending) \<Rightarrow>
               w\<lparr>heap := (heap w)[a := g'],
                 bb_best := st',
                 timers := timers w @
                   (case pending of
                      None \<Rightarrow> []
                    | Some (rs, cs) \<Rightarrow> [\<lparr>target = a, rows = rs, cols = cs\<rparr>])\<rparr>))"

text \<open>The timer at position \<open>k\<close> of the pending ones fires and is gone.\<close>

definition fireW :: "nat \<Rightarrow> draws \<Rightarrow> world \<Rightarrow> world" where
  "fireW k d w =
     (if k < length (timers w)
      then (let t = timers w ! k;
                (g', st') = onTimeout (rows t) (cols t) d (heap w ! target t, bb_best w)
            in w\<lparr>heap := (heap w)[target t := g'],
                 bb_best := st',
                 timers := take k (timers w) @ drop (Suc k) (timers w)\<rparr>)
      else w)"

datatype event =
  StartGame draws
  | SelectPiece nat
  | Escape
  | Drop int int draws
  | TimerFires nat draws

fun step :: "world \<Rightarrow> event \<Rightarrow> world" where
  "step w (StartGame d) = startGameW d w"
| "step w (SelectPiece idx) = selectPieceW idx w"
| "step w Escape = escapeW w"
| "step w (Drop r c d) = dropW r c d w"
| "step w (TimerFires k d) = fireW k d w"

definition run :: "world \<Rightarrow> event list \<Rightarrow> world" where
  "run w evs = foldl step w evs"

subsection \<open>States of the examples\<close>

text \<open>Row 0 filled in columns 0 to 6, the rest of the grid empty.\<close>

definition rowZeroAlmostFull :: grid where
  "rowZeroAlmostFull = (replicate 7 (Some ''#f472b6'') @ [None]) # replicate 7 (replicate 8 None)"

text \<open>A game on that grid with slot 0 selected, and the state after its single cell is placed at (0, 7).\<close>

definition exampleGame :: game where
  "exampleGame = (startGame (0, 7, 3) None)\<lparr>grid := rowZeroAlmostFull, selIdx := Some 0\<rparr>"

definition placedGame :: game where
  "placedGame = place exampleGame 0 (PIECES ! 0) 0 7"



text \<open>A new game with the draws 7, 3 and 0, slot 0 selected.\<close>

definition freshSelected :: game where
  "freshSelected = selectPiece 0 (startGame (7, 3, 0) None)"

text \<open>The page after the first game has started and slot 0 was selected.\<close>

definition freshWorld :: world where
  "freshWorld = run (initial None) [StartGame (7, 3, 0), SelectPiece 0]"

text \<open>
  A grid with every second cell filled, a game on it whose only shape is the domino,
  and a game whose tray is used up.
\<close>

definition checkerGrid :: grid where
  "checkerGrid =
     map (\<lambda>r. map (\<lambda>c. if even (r + c) then Some ''#f472b6'' else None) [0..<8]) [0..<8]"

definition stuckGame :: game where
  "stuckGame = (startGame (1, 1, 1) None)
     \<lparr>grid := checkerGrid, score := 7, pieces := [None, Some (PIECES ! 1), None], placing := True\<rparr>"

definition emptyTrayGame :: game where
  "emptyTrayGame = (startGame (1, 1, 1) None)\<lparr>pieces := [None, None, None], placing := True\<rparr>"

subsection \<open>Pending timers\<close>

text \<open>The number of pending timers that hold the object at address \<open>a\<close>.\<close>

definition pendingFor :: "world \<Rightarrow> nat \<Rightarrow> nat" where
  "pendingFor w a = length (filter (\<lambda>t. target t = a) (timers w))"

text \<open>
  What holds between two events of the page: the current game and the objects of the
  timers exist, an object has one pending timer while \<^verbatim>\<open>placing\<close> is true and none
  otherwise, and the best score of an object is at least its score.
\<close>

definition consistent :: "world \<Rightarrow> bool" where
  "consistent w \<longleftrightarrow>
     (\<forall>a. current w = Some a \<longrightarrow> a < length (heap w)) \<and>
     (\<forall>t \<in> set (timers w). target t < length (heap w)) \<and>
     (\<forall>a < length (heap w). pendingFor w a = (if placing (heap w ! a) then 1 else 0)) \<and>
     (\<forall>a < length (heap w). score (heap w ! a) \<le> best (heap w ! a))"

fun isStartGame :: "event \<Rightarrow> bool" where
  "isStartGame (StartGame d) = True"
| "isStartGame e = False"

text \<open>
  Two shapes complete row 0 of the first game: the timer of the clear is pending. Then
  the same page with slot 2 selected, and the page after a new game has started and
  placed a cell while the timer of the first game is still pending.
\<close>

definition pendingWorld :: world where
  "pendingWorld = run (initial None)
     [StartGame (7, 3, 0), SelectPiece 0, Drop 0 0 (0, 0, 0), SelectPiece 1, Drop 0 5 (0, 0, 0)]"

definition pendingSelected :: world where
  "pendingSelected = run (initial None)
     [StartGame (7, 3, 0), SelectPiece 0, Drop 0 0 (0, 0, 0), SelectPiece 1, Drop 0 5 (0, 0, 0),
      SelectPiece 2]"

definition restarted :: world where
  "restarted = run (startGameW (0, 0, 0) pendingWorld) [SelectPiece 0, Drop 4 4 (1, 1, 1)]"

subsection \<open>Well-formed states\<close>

text \<open>The indices \<^verbatim>\<open>randPiece\<close> can draw.\<close>

definition validDraws :: "draws \<Rightarrow> bool" where
  "validDraws d = (case d of (i, j, k) \<Rightarrow> i < length PIECES \<and> j < length PIECES \<and> k < length PIECES)"

fun validEvent :: "event \<Rightarrow> bool" where
  "validEvent (StartGame d) = validDraws d"
| "validEvent (Drop r c d) = validDraws d"
| "validEvent (TimerFires k d) = validDraws d"
| "validEvent e = True"

text \<open>
  A state object of the program: a grid of the program, three slots that hold shapes of
  the catalog or nothing, and a selection that points to a slot with a shape. In a
  well-formed page the timers hold rows and columns of the grid.
\<close>

definition wfGame :: "game \<Rightarrow> bool" where
  "wfGame g \<longleftrightarrow>
     wf_grid (grid g) \<and> length (pieces g) = 3 \<and>
     (\<forall>p. Some p \<in> set (pieces g) \<longrightarrow> p \<in> set PIECES) \<and>
     (\<forall>i. selIdx g = Some i \<longrightarrow> slot (pieces g) i \<noteq> None)"

definition wfWorld :: "world \<Rightarrow> bool" where
  "wfWorld w \<longleftrightarrow>
     (\<forall>g \<in> set (heap w). wfGame g) \<and>
     (\<forall>t \<in> set (timers w). target t < length (heap w) \<and>
        set (rows t) \<subseteq> {0..<GRID_SIZE} \<and> set (cols t) \<subseteq> {0..<GRID_SIZE}) \<and>
     (\<forall>a. current w = Some a \<longrightarrow> a < length (heap w))"

subsection \<open>The game-over marker\<close>

text \<open>
  What holds of the marker between two events: a game that is declared over is not in a
  placement, and no shape of its tray can be placed on its grid.
\<close>

definition overSound :: "world \<Rightarrow> bool" where
  "overSound w \<longleftrightarrow>
     (\<forall>g \<in> set (heap w). gameOverMsg g \<noteq> None \<longrightarrow> \<not> placing g \<and> \<not> hasAnyMove (grid g) (pieces g))"

text \<open>
  Three squares of 3 by 3 cells are placed at (0, 0), (0, 3) and (3, 0), the tray is
  refilled with squares and slot 0 is selected: a fourth square at (3, 3) leaves no room
  for a fifth.
\<close>

definition squaresWorld :: world where
  "squaresWorld = run (initial None)
     [StartGame (10, 10, 10), SelectPiece 0, Drop 0 0 (0, 0, 0), SelectPiece 1, Drop 0 3 (0, 0, 0),
      SelectPiece 2, Drop 3 0 (10, 10, 10), SelectPiece 0]"

section \<open>Properties\<close>

subsection \<open>Grid access\<close>

lemma wf_grid_makeGrid: "wf_grid makeGrid"
  by (simp add: wf_grid_def makeGrid_def list_all_iff)

lemma wf_grid_cell:
  assumes "wf_grid gr" and "r < GRID_SIZE" and "c < GRID_SIZE"
  shows "truthy (gr ! r ! c) \<longleftrightarrow> gr ! r ! c \<noteq> None"
proof -
  from assms have row: "gr ! r \<in> set gr"
    by (simp add: wf_grid_def)
  from assms(1) have all: "\<forall>row \<in> set gr. length row = GRID_SIZE \<and> (\<forall>v \<in> set row. v \<noteq> Some [])"
    by (simp add: wf_grid_def list_all_iff)
  from all row have len: "length (gr ! r) = GRID_SIZE"
    and ok: "\<forall>v \<in> set (gr ! r). v \<noteq> Some []"
    by blast+
  from assms len have "gr ! r ! c \<in> set (gr ! r)" by simp
  with ok have "gr ! r ! c \<noteq> Some []" by blast
  then show ?thesis
    by (cases "gr ! r ! c") (simp_all add: truthy_def)
qed

lemma canPlaceCells_iff:
  "canPlaceCells gr cs sr sc \<longleftrightarrow>
     (\<forall>(dr, dc) \<in> set cs.
        0 \<le> sr + dr \<and> sr + dr < int GRID_SIZE \<and> 0 \<le> sc + dc \<and> sc + dc < int GRID_SIZE \<and>
        \<not> truthy (gr ! nat (sr + dr) ! nat (sc + dc)))"
  by (induction gr cs sr sc rule: canPlaceCells.induct) (auto simp: Let_def)

lemma wf_grid_iff:
  "wf_grid gr \<longleftrightarrow> dims gr \<and> (\<forall>a < GRID_SIZE. \<forall>b < GRID_SIZE. gr ! a ! b \<noteq> Some [])"
  unfolding wf_grid_def dims_def list_all_length by auto

lemma dims_setCell: "dims gr \<Longrightarrow> dims (setCell gr r c v)"
  by (cases "r < length gr") (auto simp: dims_def setCell_def nth_list_update)

lemma nth_setCell:
  "dims gr \<Longrightarrow> r < GRID_SIZE \<Longrightarrow> c < GRID_SIZE \<Longrightarrow> a < GRID_SIZE \<Longrightarrow> b < GRID_SIZE \<Longrightarrow>
     setCell gr r c v ! a ! b = (if a = r \<and> b = c then v else gr ! a ! b)"
  by (auto simp: dims_def setCell_def nth_list_update)

lemma dims_fillCells: "dims gr \<Longrightarrow> dims (fillCells gr cs r c col)"
  by (induction gr cs r c col rule: fillCells.induct) (simp_all add: dims_setCell)

lemma nth_fillCells:
  assumes "dims gr" and "a < GRID_SIZE" and "b < GRID_SIZE"
    and "\<forall>(dr, dc) \<in> set cs. 0 \<le> r + dr \<and> r + dr < int GRID_SIZE \<and> 0 \<le> c + dc \<and> c + dc < int GRID_SIZE"
  shows "fillCells gr cs r c col ! a ! b =
     (if (int a - r, int b - c) \<in> set cs then Some col else gr ! a ! b)"
  using assms
proof (induction gr cs r c col rule: fillCells.induct)
  case (1 gr r c col)
  then show ?case by simp
next
  case (2 gr dr dc rest r c col)
  let ?gr = "setCell gr (nat (r + dr)) (nat (c + dc)) (Some col)"
  from 2 have inb: "nat (r + dr) < GRID_SIZE" "nat (c + dc) < GRID_SIZE" by auto
  have eq: "a = nat (r + dr) \<and> b = nat (c + dc) \<longleftrightarrow> (int a - r, int b - c) = (dr, dc)"
    using 2 by auto
  from 2 have IH: "fillCells ?gr rest r c col ! a ! b =
     (if (int a - r, int b - c) \<in> set rest then Some col else ?gr ! a ! b)"
    by (simp add: dims_setCell)
  show ?case
    using IH eq nth_setCell [OF "2.prems"(1) inb "2.prems"(2,3), of "Some col"] by auto
qed










lemma rowsToClear_subset: "set (rowsToClear gr) \<subseteq> {0..<GRID_SIZE}"
  by (auto simp: rowsToClear_def)

lemma colsToClear_subset: "set (colsToClear gr) \<subseteq> {0..<GRID_SIZE}"
  by (auto simp: colsToClear_def)

subsection \<open>canPlace\<close>

text \<open>
  C1. On a grid of the program, \<^verbatim>\<open>canPlace(grid, piece, sr, sc)\<close> is true if and only if
  every cell of the shape, moved to the anchor, has both coordinates in [0, 8) and the
  grid holds \<^verbatim>\<open>null\<close> (Empty) there. \<open>canPlace\<close> returns the boolean only: the function
  reads the grid and writes nothing.
\<close>

theorem canPlace_iff_cells_inside_and_empty:
  assumes "wf_grid gr"
  shows "canPlace gr p sr sc \<longleftrightarrow>
     (\<forall>(dr, dc) \<in> set (cells p).
        0 \<le> sr + dr \<and> sr + dr < 8 \<and> 0 \<le> sc + dc \<and> sc + dc < 8 \<and>
        gr ! nat (sr + dr) ! nat (sc + dc) = None)"
proof -
  have "\<not> truthy (gr ! nat (sr + dr) ! nat (sc + dc)) \<longleftrightarrow> gr ! nat (sr + dr) ! nat (sc + dc) = None"
    if "0 \<le> sr + dr" "sr + dr < 8" "0 \<le> sc + dc" "sc + dc < 8" for dr dc
    using that wf_grid_cell [OF assms, of "nat (sr + dr)" "nat (sc + dc)"]
    by (simp add: GRID_SIZE_def)
  then show ?thesis
    unfolding canPlace_def canPlaceCells_iff by (auto simp: GRID_SIZE_def truthy_def)
qed

lemma wf_rowZeroAlmostFull: "wf_grid rowZeroAlmostFull"
  by code_simp

theorem canPlace_iff_cells_inside_and_empty_witness:
  "wf_grid rowZeroAlmostFull \<and> canPlace rowZeroAlmostFull (PIECES ! 0) 0 7
   \<and> \<not> canPlace rowZeroAlmostFull (PIECES ! 1) 0 6
   \<and> \<not> canPlace rowZeroAlmostFull (PIECES ! 1) 0 7
   \<and> \<not> canPlace rowZeroAlmostFull (PIECES ! 2) (-1) 7"
proof -
  note ev = PIECES_def rowZeroAlmostFull_def nth_append
  note c1 = canPlace_iff_cells_inside_and_empty [OF wf_rowZeroAlmostFull]
  have "canPlace rowZeroAlmostFull (PIECES ! 0) 0 7"
    using c1 [of "PIECES ! 0" 0 7] by (simp add: ev)
  moreover have "\<not> canPlace rowZeroAlmostFull (PIECES ! 1) 0 6"
    using c1 [of "PIECES ! 1" 0 6] by (simp add: ev)
  moreover have "\<not> canPlace rowZeroAlmostFull (PIECES ! 1) 0 7"
    using c1 [of "PIECES ! 1" 0 7] by (simp add: ev)
  moreover have "\<not> canPlace rowZeroAlmostFull (PIECES ! 2) (-1) 7"
    using c1 [of "PIECES ! 2" "-1" 7] by (simp add: ev)
  ultimately show ?thesis
    using wf_rowZeroAlmostFull by simp
qed

subsection \<open>hasAnyMove\<close>

lemma scan_grid:
  "list_ex (\<lambda>r. list_ex (\<lambda>c. canPlace gr p (int r) (int c)) [0..<GRID_SIZE]) [0..<GRID_SIZE]
     \<longleftrightarrow> (\<exists>r c. r < GRID_SIZE \<and> c < GRID_SIZE \<and> canPlace gr p (int r) (int c))"
  unfolding list_ex_iff Bex_def by (simp only: set_upt atLeastLessThan_iff) blast

lemma hasAnyMove_iff:
  "hasAnyMove gr ps \<longleftrightarrow>
     (\<exists>p r c. Some p \<in> set ps \<and> r < GRID_SIZE \<and> c < GRID_SIZE \<and> canPlace gr p (int r) (int c))"
proof (induction gr ps rule: hasAnyMove.induct)
  case (1 gr)
  show ?case by simp
next
  case (2 gr ps)
  then show ?case by simp
next
  case (3 gr p ps)
  show ?case
  proof (cases "\<exists>r c. r < GRID_SIZE \<and> c < GRID_SIZE \<and> canPlace gr p (int r) (int c)")
    case True
    then have "hasAnyMove gr (Some p # ps)"
      by (simp only: hasAnyMove.simps scan_grid if_True)
    moreover from True have "\<exists>q r c. Some q \<in> set (Some p # ps) \<and> r < GRID_SIZE \<and> c < GRID_SIZE
        \<and> canPlace gr q (int r) (int c)"
      by (metis list.set_intros(1))
    ultimately show ?thesis by blast
  next
    case False
    then have "hasAnyMove gr (Some p # ps) = hasAnyMove gr ps"
      by (simp only: hasAnyMove.simps scan_grid if_False)
    also have "\<dots> \<longleftrightarrow> (\<exists>q r c. Some q \<in> set ps \<and> r < GRID_SIZE \<and> c < GRID_SIZE
        \<and> canPlace gr q (int r) (int c))"
      using 3 False by (simp only: scan_grid not_False_eq_True)
    also have "\<dots> \<longleftrightarrow> (\<exists>q r c. Some q \<in> set (Some p # ps) \<and> r < GRID_SIZE \<and> c < GRID_SIZE
        \<and> canPlace gr q (int r) (int c))"
      using False by (metis option.inject set_ConsD list.set_intros(2))
    finally show ?thesis .
  qed
qed

subsection \<open>The catalog\<close>

lemma length_PIECES: "length PIECES = 26"
  by (simp add: PIECES_def)

lemma PIECES_wf_shape: "list_all wf_shape PIECES"
  by (simp add: PIECES_def wf_shape_def GRID_SIZE_def)

lemma catalog_wf_shape: "p \<in> set PIECES \<Longrightarrow> wf_shape p"
  using PIECES_wf_shape by (simp add: list_all_iff)

lemma canPlace_anchor_in_grid:
  assumes "wf_shape p" and "canPlace gr p sr sc"
  shows "0 \<le> sr \<and> sr < int GRID_SIZE \<and> 0 \<le> sc \<and> sc < int GRID_SIZE"
proof -
  from assms(1) obtain dc dr where "(0, dc) \<in> set (cells p)" and "(dr, 0) \<in> set (cells p)"
    by (auto simp: wf_shape_def list_ex_iff)
  with assms(2) show ?thesis
    unfolding canPlace_def canPlaceCells_iff by fastforce
qed

text \<open>
  C10. Every shape of \<^verbatim>\<open>PIECES\<close> has at least one cell, and every offset of every shape
  is at least 0 and below 8. Every shape has a cell in row 0 and a cell in column 0 of
  its offsets, so the anchor is the top left corner of its bounding box: a placement
  \<^verbatim>\<open>canPlace\<close> accepts has its anchor in [0, 8) x [0, 8), and the search of
  \<^verbatim>\<open>hasAnyMove\<close> over those anchors misses no placement.
\<close>

theorem catalog_shapes_nonempty_offsets_in_grid:
  "\<forall>p \<in> set PIECES.
     cells p \<noteq> [] \<and>
     (\<forall>(dr, dc) \<in> set (cells p). 0 \<le> dr \<and> dr < 8 \<and> 0 \<le> dc \<and> dc < 8) \<and>
     (\<exists>dc. (0, dc) \<in> set (cells p)) \<and> (\<exists>dr. (dr, 0) \<in> set (cells p)) \<and>
     (\<forall>gr sr sc. canPlace gr p sr sc \<longrightarrow> 0 \<le> sr \<and> sr < 8 \<and> 0 \<le> sc \<and> sc < 8) \<and>
     (\<forall>gr ps. Some p \<in> set ps \<and> (\<exists>sr sc. canPlace gr p sr sc) \<longrightarrow> hasAnyMove gr ps)"
proof
  fix p assume "p \<in> set PIECES"
  then have wf: "wf_shape p" by (rule catalog_wf_shape)
  have anchor: "0 \<le> sr \<and> sr < 8 \<and> 0 \<le> sc \<and> sc < 8" if "canPlace gr p sr sc" for gr sr sc
    using canPlace_anchor_in_grid [OF wf that] by (simp add: GRID_SIZE_def)
  have "hasAnyMove gr ps" if "Some p \<in> set ps" and "canPlace gr p sr sc" for gr ps sr sc
  proof -
    from anchor [OF that(2)] have "nat sr < GRID_SIZE" "nat sc < GRID_SIZE"
      "int (nat sr) = sr" "int (nat sc) = sc"
      by (auto simp: GRID_SIZE_def)
    with that show ?thesis unfolding hasAnyMove_iff by metis
  qed
  with wf anchor show "cells p \<noteq> [] \<and>
     (\<forall>(dr, dc) \<in> set (cells p). 0 \<le> dr \<and> dr < 8 \<and> 0 \<le> dc \<and> dc < 8) \<and>
     (\<exists>dc. (0, dc) \<in> set (cells p)) \<and> (\<exists>dr. (dr, 0) \<in> set (cells p)) \<and>
     (\<forall>gr sr sc. canPlace gr p sr sc \<longrightarrow> 0 \<le> sr \<and> sr < 8 \<and> 0 \<le> sc \<and> sc < 8) \<and>
     (\<forall>gr ps. Some p \<in> set ps \<and> (\<exists>sr sc. canPlace gr p sr sc) \<longrightarrow> hasAnyMove gr ps)"
    by (auto simp: wf_shape_def list_all_iff list_ex_iff GRID_SIZE_def)
qed

theorem catalog_shapes_nonempty_offsets_in_grid_witness:
  "PIECES ! 14 \<in> set PIECES \<and> cells (PIECES ! 14) = [(0,1),(1,1),(2,0),(2,1)]
   \<and> \<not> canPlace makeGrid (PIECES ! 14) (-1) 0 \<and> \<not> canPlace makeGrid (PIECES ! 14) 0 (-1)
   \<and> \<not> canPlace makeGrid (PIECES ! 14) 6 0 \<and> canPlace makeGrid (PIECES ! 14) 5 6
   \<and> hasAnyMove makeGrid [None, Some (PIECES ! 14), None]"
proof -
  have mem: "PIECES ! 14 \<in> set PIECES"
    by (rule nth_mem) (simp add: length_PIECES)
  have cs: "cells (PIECES ! 14) = [(0,1),(1,1),(2,0),(2,1)]"
    by (simp add: PIECES_def)
  note c = catalog_shapes_nonempty_offsets_in_grid [THEN bspec, OF mem]
  have ok: "canPlace makeGrid (PIECES ! 14) 5 6"
    by (simp add: canPlace_def cs makeGrid_def GRID_SIZE_def truthy_def)
  have no: "\<not> canPlace makeGrid (PIECES ! 14) 6 0"
    by (simp add: canPlace_def cs makeGrid_def GRID_SIZE_def truthy_def)
  from c have "\<not> canPlace makeGrid (PIECES ! 14) (-1) 0" "\<not> canPlace makeGrid (PIECES ! 14) 0 (-1)"
    by fastforce+
  moreover from c ok have "hasAnyMove makeGrid [None, Some (PIECES ! 14), None]"
    by (meson list.set_intros)
  ultimately show ?thesis using mem cs ok no by simp
qed

subsection \<open>The callback and clearLines\<close>

lemma saveBest_fields:
  "saveBest (g, st) = (g', st') \<Longrightarrow> g' = g\<lparr>best := best g'\<rparr>"
  by (auto simp: saveBest_def split: if_splits)

lemma doneCallback_unfold:
  "doneCallback d (g, st) = (g', st') \<Longrightarrow>
     g' = g\<lparr>placing := False,
            pieces := (if list_all (\<lambda>x. x = None) (pieces g) then freshTray d else pieces g),
            best := best g',
            gameOverMsg := gameOverMsg g'\<rparr>"
  by (auto simp: doneCallback_def saveBest_def Let_def split: if_splits prod.splits)

lemma doneCallback_gameOverMsg:
  "doneCallback d (g, st) = (g', st') \<Longrightarrow>
     gameOverMsg g' = (if hasAnyMove (grid g') (pieces g') then gameOverMsg g
                       else Some (score g, score g \<ge> best g' \<and> score g > 0))"
  by (auto simp: doneCallback_def saveBest_def Let_def split: if_splits prod.splits)

lemma clearLines_none:
  "lineCount (grid g) = 0 \<Longrightarrow>
     clearLines d (g, st) = (doneCallback d (g\<lparr>streak := 0, comboText := []\<rparr>, st), None)"
  by (simp add: clearLines_def lineCount_def Let_def)

lemma clearLines_some:
  "lineCount (grid g) \<noteq> 0 \<Longrightarrow> clearLines d (g, st) = ((g', st'), pending) \<Longrightarrow>
     pending = Some (rowsToClear (grid g), colsToClear (grid g)) \<and>
     g' = g\<lparr>streak := streak g + 1,
            score := score g + lineCount (grid g) * GRID_SIZE * 10 * (if streak g + 1 > 1 then streak g + 1 else 1),
            linesCleared := linesCleared g + lineCount (grid g),
            best := best g',
            comboText := comboLabel (streak g + 1),
            flashCells := toFlash (rowsToClear (grid g)) (colsToClear (grid g))\<rparr>"
  by (auto simp: clearLines_def lineCount_def saveBest_def Let_def split: if_splits prod.splits)

text \<open>
  C2. The clear step of a placement. With no full row and no full column (count 0) the
  streak is reset to 0, the score and the lines counter keep their values, the grid is
  not touched and no timer is set. Otherwise the streak grows by exactly 1, the score
  grows by count * 8 * 10 * (streak if streak > 1 else 1) with the streak after the
  increment, and count is added to the lines counter.
\<close>

theorem clearLines_streak_and_bonus:
  assumes "clearLines d (g, st) = ((g', st'), pending)"
    and "count = length (rowsToClear (grid g)) + length (colsToClear (grid g))"
  shows "if count = 0
         then streak g' = 0 \<and> score g' = score g \<and> linesCleared g' = linesCleared g \<and>
              grid g' = grid g \<and> pending = None
         else streak g' = streak g + 1 \<and>
              score g' = score g + count * 8 * 10 * (if streak g' > 1 then streak g' else 1) \<and>
              linesCleared g' = linesCleared g + count \<and>
              grid g' = grid g \<and>
              pending = Some (rowsToClear (grid g), colsToClear (grid g))"
proof (cases "count = 0")
  case True
  with assms have "doneCallback d (g\<lparr>streak := 0, comboText := []\<rparr>, st) = (g', st')" and "pending = None"
    by (simp_all add: clearLines_none lineCount_def)
  from doneCallback_unfold [OF this(1)] \<open>pending = None\<close> True show ?thesis
    by (cases g') simp
next
  case False
  with assms(2) have "lineCount (grid g) \<noteq> 0" by (simp add: lineCount_def)
  from clearLines_some [OF this assms(1)] False assms(2) show ?thesis
    by (cases g') (simp add: lineCount_def GRID_SIZE_def)
qed

lemma placedGame_lines:
  "rowsToClear (grid placedGame) = [0]" "colsToClear (grid placedGame) = []"
  by code_simp+

lemma placedGame_fields:
  "score placedGame = 1" "streak placedGame = 0" "linesCleared placedGame = 0"
  by (simp_all add: placedGame_def place_def exampleGame_def startGame_def PIECES_def)

lemma startGame_lines:
  "rowsToClear (grid (startGame d st)) = []" "colsToClear (grid (startGame d st)) = []"
proof -
  have "rowsToClear makeGrid = []" "colsToClear makeGrid = []"
    by code_simp+
  then show "rowsToClear (grid (startGame d st)) = []" "colsToClear (grid (startGame d st)) = []"
    by (simp_all add: startGame_def)
qed

theorem clearLines_streak_and_bonus_witness:
  "streak (fst (fst (clearLines (0, 0, 0) (placedGame, None)))) = 1
   \<and> score (fst (fst (clearLines (0, 0, 0) (placedGame, None)))) = 81
   \<and> linesCleared (fst (fst (clearLines (0, 0, 0) (placedGame, None)))) = 1
   \<and> snd (clearLines (0, 0, 0) (placedGame, None)) = Some ([0], [])
   \<and> streak (fst (fst (clearLines (0, 0, 0) ((startGame (0, 7, 3) None)\<lparr>streak := 4\<rparr>, None)))) = 0
   \<and> score (fst (fst (clearLines (0, 0, 0) ((startGame (0, 7, 3) None)\<lparr>streak := 4\<rparr>, None)))) = 0
   \<and> snd (clearLines (0, 0, 0) ((startGame (0, 7, 3) None)\<lparr>streak := 4\<rparr>, None)) = None"
proof -
  let ?r = "clearLines (0, 0, 0) (placedGame, None)"
  let ?g0 = "(startGame (0, 7, 3) None)\<lparr>streak := 4\<rparr>"
  let ?s = "clearLines (0, 0, 0) (?g0, None)"
  have "?r = ((fst (fst ?r), snd (fst ?r)), snd ?r)" by simp
  from clearLines_streak_and_bonus [OF this, of 1]
  have a: "streak (fst (fst ?r)) = 1 \<and> score (fst (fst ?r)) = 81 \<and> linesCleared (fst (fst ?r)) = 1
      \<and> snd ?r = Some ([0], [])"
    by (simp add: placedGame_lines placedGame_fields)
  have "?s = ((fst (fst ?s), snd (fst ?s)), snd ?s)" by simp
  from clearLines_streak_and_bonus [OF this, of 0]
  have b: "streak (fst (fst ?s)) = 0 \<and> score (fst (fst ?s)) = 0 \<and> snd ?s = None"
    by (simp add: startGame_lines) (simp add: startGame_def)
  from a b show ?thesis by simp
qed

subsection \<open>Which lines are cleared\<close>






subsection \<open>A legal drop\<close>

lemma canPlace_cells:
  assumes "canPlace gr p r c" and "(dr, dc) \<in> set (cells p)"
  shows "0 \<le> r + dr" "r + dr < int GRID_SIZE" "0 \<le> c + dc" "c + dc < int GRID_SIZE"
    "\<not> truthy (gr ! nat (r + dr) ! nat (c + dc))"
  using assms unfolding canPlace_def canPlaceCells_iff by auto

lemma grid_place:
  assumes "dims (grid g)" and "canPlace (grid g) p r c" and "a < GRID_SIZE" and "b < GRID_SIZE"
  shows "grid (place g i p r c) ! a ! b =
     (if (int a - r, int b - c) \<in> set (cells p) then Some (color p) else grid g ! a ! b)"
proof -
  have "\<forall>(dr, dc) \<in> set (cells p).
      0 \<le> r + dr \<and> r + dr < int GRID_SIZE \<and> 0 \<le> c + dc \<and> c + dc < int GRID_SIZE"
    using canPlace_cells [OF assms(2)] by auto
  from nth_fillCells [OF assms(1,3,4) this] show ?thesis
    by (simp add: place_def)
qed

lemma card_shape_cells:
  assumes "canPlace gr p r c" and "distinct (cells p)"
  shows "card {(a, b). a < GRID_SIZE \<and> b < GRID_SIZE \<and> (int a - r, int b - c) \<in> set (cells p)}
     = length (cells p)"
proof -
  let ?f = "\<lambda>(dr, dc). (nat (r + dr), nat (c + dc))"
  have inj: "inj_on ?f (set (cells p))"
  proof (rule inj_onI)
    fix x y assume x: "x \<in> set (cells p)" and y: "y \<in> set (cells p)" and eq: "?f x = ?f y"
    obtain dr dc where xd: "x = (dr, dc)" by (cases x)
    obtain er ec where yd: "y = (er, ec)" by (cases y)
    from canPlace_cells(1,3) [OF assms(1)] x y xd yd
    have "0 \<le> r + dr" "0 \<le> c + dc" "0 \<le> r + er" "0 \<le> c + ec" by auto
    with eq xd yd show "x = y" by auto
  qed
  have "{(a, b). a < GRID_SIZE \<and> b < GRID_SIZE \<and> (int a - r, int b - c) \<in> set (cells p)}
      = ?f ` set (cells p)"
  proof (intro set_eqI iffI)
    fix x assume "x \<in> {(a, b). a < GRID_SIZE \<and> b < GRID_SIZE \<and> (int a - r, int b - c) \<in> set (cells p)}"
    then obtain a b where x: "x = (a, b)" and m: "(int a - r, int b - c) \<in> set (cells p)"
      by auto
    have "?f (int a - r, int b - c) = (a, b)" by simp
    with m x show "x \<in> ?f ` set (cells p)" by (metis image_eqI)
  next
    fix x assume "x \<in> ?f ` set (cells p)"
    then obtain dr dc where m: "(dr, dc) \<in> set (cells p)" and x: "x = (nat (r + dr), nat (c + dc))"
      by auto
    from canPlace_cells(1-4) [OF assms(1) m] m x
    show "x \<in> {(a, b). a < GRID_SIZE \<and> b < GRID_SIZE \<and> (int a - r, int b - c) \<in> set (cells p)}"
      by auto
  qed
  then show ?thesis
    using card_image [OF inj] distinct_card [OF assms(2)] by simp
qed

text \<open>
  C5. A legal drop of the selected shape of the catalog at (r, c): \<^verbatim>\<open>drop\<close> runs the
  placement step and then \<^verbatim>\<open>clearLines\<close>. In the placement step the cells that change
  are exactly the cells of the shape; each was Empty and is Filled with the colour of
  the shape, there are exactly as many as the shape has cells, the score grows by that
  number before \<^verbatim>\<open>clearLines\<close> adds a bonus, the slot of the shape becomes empty (the
  other slots stay) and the selection is cleared.
\<close>

theorem legal_drop_fills_exactly_the_shape:
  assumes "wf_grid (grid g)" and "\<not> placing g" and "selIdx g = Some i"
    and "slot (pieces g) i = Some p" and "p \<in> set PIECES" and "canPlace (grid g) p r c"
    and "g' = place g i p r c"
  shows "dropAt r c d (g, st) = Inr (clearLines d (g', st)) \<and>
     (\<forall>a < 8. \<forall>b < 8. grid g' ! a ! b =
        (if (int a - r, int b - c) \<in> set (cells p) then Some (color p) else grid g ! a ! b)) \<and>
     {(a, b). a < 8 \<and> b < 8 \<and> grid g' ! a ! b \<noteq> grid g ! a ! b} =
       {(a, b). a < 8 \<and> b < 8 \<and> grid g ! a ! b = None \<and> grid g' ! a ! b \<noteq> None} \<and>
     card {(a, b). a < 8 \<and> b < 8 \<and> grid g ! a ! b = None \<and> grid g' ! a ! b \<noteq> None}
       = length (cells p) \<and>
     score g' = score g + length (cells p) \<and>
     slot (pieces g') i = None \<and> (\<forall>j. j \<noteq> i \<longrightarrow> slot (pieces g') j = slot (pieces g) j) \<and>
     selIdx g' = None \<and> placing g'"
proof -
  from assms(5) have shape: "wf_shape p" by (rule catalog_wf_shape)
  from assms(1) have dims: "dims (grid g)" by (simp add: wf_grid_iff)
  have cell: "grid g' ! a ! b =
      (if (int a - r, int b - c) \<in> set (cells p) then Some (color p) else grid g ! a ! b)"
    if "a < 8" "b < 8" for a b
    using grid_place [OF dims assms(6), of a b i] that assms(7) by (simp add: GRID_SIZE_def)
  have was_empty: "grid g ! a ! b = None"
    if "a < 8" "b < 8" "(int a - r, int b - c) \<in> set (cells p)" for a b
  proof -
    from canPlace_cells(5) [OF assms(6) that(3)] have "\<not> truthy (grid g ! a ! b)" by simp
    with wf_grid_cell [OF assms(1), of a b] that show ?thesis by (simp add: GRID_SIZE_def)
  qed
  have changed: "{(a, b). a < 8 \<and> b < 8 \<and> grid g' ! a ! b \<noteq> grid g ! a ! b} =
      {(a, b). a < 8 \<and> b < 8 \<and> (int a - r, int b - c) \<in> set (cells p)}"
    using cell was_empty by (auto split: if_splits)
  have filled: "{(a, b). a < 8 \<and> b < 8 \<and> grid g ! a ! b = None \<and> grid g' ! a ! b \<noteq> None} =
      {(a, b). a < 8 \<and> b < 8 \<and> (int a - r, int b - c) \<in> set (cells p)}"
    using cell was_empty by (auto split: if_splits)
  have card: "card {(a, b). a < 8 \<and> b < 8 \<and> (int a - r, int b - c) \<in> set (cells p)} = length (cells p)"
    using card_shape_cells [OF assms(6)] shape by (simp add: wf_shape_def GRID_SIZE_def)
  have drop: "dropAt r c d (g, st) = Inr (clearLines d (g', st))"
    using assms(2,3,4,6,7) by (simp add: dropAt_def)
  have tray: "slot (pieces g') i = None" "\<forall>j. j \<noteq> i \<longrightarrow> slot (pieces g') j = slot (pieces g) j"
    using assms(4,7) by (auto simp: place_def slot_def split: if_splits)
  have fields: "score g' = score g + length (cells p)" "selIdx g' = None" "placing g'"
    using assms(7) by (simp_all add: place_def)
  from drop cell changed filled card tray fields show ?thesis
    by (simp only:) simp
qed

lemma freshSelected_facts:
  "wf_grid (grid freshSelected)" "\<not> placing freshSelected" "selIdx freshSelected = Some 0"
  "slot (pieces freshSelected) 0 = Some (PIECES ! 7)" "score freshSelected = 0"
  "canPlace (grid freshSelected) (PIECES ! 7) 3 0"
proof -
  have g: "grid freshSelected = makeGrid"
    by (simp add: freshSelected_def selectPiece_def startGame_def)
  show "wf_grid (grid freshSelected)"
    by (simp add: g wf_grid_makeGrid)
  show "canPlace (grid freshSelected) (PIECES ! 7) 3 0"
    unfolding g by (simp add: canPlace_def makeGrid_def GRID_SIZE_def truthy_def PIECES_def)
  show "\<not> placing freshSelected" "selIdx freshSelected = Some 0"
    "slot (pieces freshSelected) 0 = Some (PIECES ! 7)" "score freshSelected = 0"
    by (simp_all add: freshSelected_def selectPiece_def startGame_def freshTray_def randPiece_def
        slot_def)
qed

theorem legal_drop_fills_exactly_the_shape_witness:
  "wf_grid (grid freshSelected) \<and> \<not> placing freshSelected \<and> selIdx freshSelected = Some 0
   \<and> slot (pieces freshSelected) 0 = Some (PIECES ! 7) \<and> PIECES ! 7 \<in> set PIECES
   \<and> canPlace (grid freshSelected) (PIECES ! 7) 3 0
   \<and> dropAt 3 0 (0, 0, 0) (freshSelected, None)
        = Inr (clearLines (0, 0, 0) (place freshSelected 0 (PIECES ! 7) 3 0, None))
   \<and> card {(a, b). a < 8 \<and> b < 8 \<and> grid freshSelected ! a ! b = None
          \<and> grid (place freshSelected 0 (PIECES ! 7) 3 0) ! a ! b \<noteq> None} = 5
   \<and> score (place freshSelected 0 (PIECES ! 7) 3 0) = 5
   \<and> grid (place freshSelected 0 (PIECES ! 7) 3 0) ! 3 ! 4 = Some ''#a3e635''
   \<and> grid (place freshSelected 0 (PIECES ! 7) 3 0) ! 3 ! 5 = None
   \<and> slot (pieces (place freshSelected 0 (PIECES ! 7) 3 0)) 0 = None
   \<and> selIdx (place freshSelected 0 (PIECES ! 7) 3 0) = None"
proof -
  have mem: "PIECES ! 7 \<in> set PIECES"
    by (rule nth_mem) (simp add: length_PIECES)
  have p7: "cells (PIECES ! 7) = [(0,0),(0,1),(0,2),(0,3),(0,4)]" "color (PIECES ! 7) = ''#a3e635''"
    by (simp_all add: PIECES_def)
  have e: "grid freshSelected ! 3 ! 5 = None"
    by (simp add: freshSelected_def selectPiece_def startGame_def makeGrid_def GRID_SIZE_def)
  note c5 = legal_drop_fills_exactly_the_shape [OF freshSelected_facts(1-4) mem
      freshSelected_facts(6) refl, of "(0, 0, 0)" None]
  note cell = c5 [THEN conjunct2, THEN conjunct1, rule_format]
  have "grid (place freshSelected 0 (PIECES ! 7) 3 0) ! 3 ! 4 = Some ''#a3e635''"
    "grid (place freshSelected 0 (PIECES ! 7) 3 0) ! 3 ! 5 = None"
    using cell [of 3 4] cell [of 3 5] e by (simp_all add: p7)
  with c5 mem freshSelected_facts show ?thesis
    by (simp add: p7(1))
qed

subsection \<open>A drop that is refused\<close>

lemma freshWorld_eq:
  "freshWorld = \<lparr>heap = [freshSelected], current = Some 0, timers = [], bb_best = None\<rparr>"
  by (simp add: freshWorld_def run_def initial_def startGameW_def selectPieceW_def freshSelected_def)

text \<open>
  C8. In a state where a piece is selected, if \<^verbatim>\<open>canPlace\<close> is false for that shape at
  (r, c), then \<^verbatim>\<open>drop(r, c)\<close> changes nothing: the state object, the stored best score,
  the pending timers and the reference to the current game are what they were.
\<close>

theorem rejected_drop_changes_nothing:
  assumes "current w = Some a" and "a < length (heap w)"
    and "selIdx (heap w ! a) = Some i" and "slot (pieces (heap w ! a)) i = Some p"
    and "\<not> canPlace (grid (heap w ! a)) p r c"
  shows "dropAt r c d (heap w ! a, bb_best w) = Inr ((heap w ! a, bb_best w), None) \<and>
         dropW r c d w = w"
proof -
  from assms(3,4,5) have "dropAt r c d (heap w ! a, bb_best w) = Inr ((heap w ! a, bb_best w), None)"
    by (simp add: dropAt_def)
  moreover from this assms(1) have "dropW r c d w = w"
    by (simp add: dropW_def)
  ultimately show ?thesis by simp
qed

theorem rejected_drop_changes_nothing_witness:
  "current freshWorld = Some 0 \<and> selIdx (heap freshWorld ! 0) = Some 0
   \<and> slot (pieces (heap freshWorld ! 0)) 0 = Some (PIECES ! 7)
   \<and> \<not> canPlace (grid (heap freshWorld ! 0)) (PIECES ! 7) 3 4
   \<and> dropW 3 4 (1, 2, 3) freshWorld = freshWorld"
proof -
  have h: "current freshWorld = Some 0" "0 < length (heap freshWorld)"
    "heap freshWorld ! 0 = freshSelected"
    by (simp_all add: freshWorld_eq)
  have g: "grid freshSelected = makeGrid"
    by (simp add: freshSelected_def selectPiece_def startGame_def)
  have no: "\<not> canPlace (grid (heap freshWorld ! 0)) (PIECES ! 7) 3 4"
    unfolding h(3) g by (simp add: canPlace_def makeGrid_def GRID_SIZE_def truthy_def PIECES_def)
  have sel: "selIdx (heap freshWorld ! 0) = Some 0"
    "slot (pieces (heap freshWorld ! 0)) 0 = Some (PIECES ! 7)"
    by (simp_all add: h(3) freshSelected_facts)
  from rejected_drop_changes_nothing [OF h(1,2) sel no, of "(1, 2, 3)"] h(1) sel no
  show ?thesis by simp
qed

subsection \<open>Refilling the tray\<close>

lemma pieces_doneCallback:
  "pieces (fst (doneCallback d (g, st))) =
     (if \<forall>x \<in> set (pieces g). x = None then freshTray d else pieces g)"
proof -
  obtain g' st' where r: "doneCallback d (g, st) = (g', st')"
    by (cases "doneCallback d (g, st)")
  from doneCallback_unfold [OF r] have
    "pieces g' = (if list_all (\<lambda>x. x = None) (pieces g) then freshTray d else pieces g)"
    by (cases g') simp
  with r show ?thesis by (simp add: list_all_iff)
qed

lemma pieces_onTimeout:
  "pieces (fst (onTimeout rs cs d (g, st))) =
     (if \<forall>x \<in> set (pieces g). x = None then freshTray d else pieces g)"
  by (simp add: onTimeout_def pieces_doneCallback) blast

lemma pieces_clearLines:
  "pieces (fst (fst (clearLines d (g, st)))) =
     (if lineCount (grid g) = 0 \<and> (\<forall>x \<in> set (pieces g). x = None) then freshTray d else pieces g)"
proof (cases "lineCount (grid g) = 0")
  case True
  then show ?thesis by (simp add: clearLines_none pieces_doneCallback) blast
next
  case False
  obtain g1 st1 pend where r: "clearLines d (g, st) = ((g1, st1), pend)"
    by (cases "clearLines d (g, st)") auto
  from clearLines_some [OF False r] have "pieces g1 = pieces g" by (cases g1) simp
  with r False show ?thesis by simp
qed

lemma pieces_dropAt:
  assumes "dropAt r c d (g, st) = Inr ((g', st'), pending)"
  shows "pieces g' = pieces g \<or> (\<exists>i. pieces g' = (pieces g)[i := None]) \<or>
     (\<exists>i. pieces g' = freshTray d \<and> (\<forall>x \<in> set ((pieces g)[i := None]). x = None))"
proof (cases "placing g \<or> selIdx g = None")
  case True
  with assms have "g' = g" by (auto simp: dropAt_def split: if_splits)
  then show ?thesis by simp
next
  case False
  then obtain i where i: "selIdx g = Some i" and np: "\<not> placing g" by auto
  show ?thesis
  proof (cases "slot (pieces g) i")
    case None
    with assms i np show ?thesis by (simp add: dropAt_def)
  next
    case (Some p)
    show ?thesis
    proof (cases "canPlace (grid g) p r c")
      case False
      with assms i np Some have "g' = g" by (simp add: dropAt_def)
      then show ?thesis by simp
    next
      case True
      with assms i np Some have "clearLines d (place g i p r c, st) = ((g', st'), pending)"
        by (simp add: dropAt_def)
      with pieces_clearLines [of d "place g i p r c" st]
      have "pieces g' = (if lineCount (grid (place g i p r c)) = 0
          \<and> (\<forall>x \<in> set (pieces (place g i p r c)). x = None)
          then freshTray d else pieces (place g i p r c))"
        by simp
      moreover have "pieces (place g i p r c) = (pieces g)[i := None]"
        by (simp add: place_def)
      ultimately show ?thesis by (auto split: if_splits)
    qed
  qed
qed

lemma tray_of_step:
  assumes "a < length (heap w)"
  shows "pieces (heap (step w e) ! a) = pieces (heap w ! a)
     \<or> (\<exists>i. pieces (heap (step w e) ! a) = (pieces (heap w ! a))[i := None])
     \<or> (\<exists>d i. pieces (heap (step w e) ! a) = freshTray d
           \<and> (\<forall>x \<in> set ((pieces (heap w ! a))[i := None]). x = None))"
proof (cases e)
  case (StartGame d)
  with assms show ?thesis by (simp add: startGameW_def nth_append)
next
  case (SelectPiece idx)
  have "pieces (heap (selectPieceW idx w) ! a) = pieces (heap w ! a)"
  proof (cases "current w")
    case None
    then show ?thesis by (simp add: selectPieceW_def)
  next
    case (Some b)
    with assms show ?thesis
      by (cases "a = b") (simp_all add: selectPieceW_def selectPiece_def)
  qed
  with SelectPiece show ?thesis by simp
next
  case Escape
  have "pieces (heap (escapeW w) ! a) = pieces (heap w ! a)"
  proof (cases "current w")
    case None
    then show ?thesis by (simp add: escapeW_def)
  next
    case (Some b)
    with assms show ?thesis
      by (cases "a = b") (simp_all add: escapeW_def)
  qed
  with Escape show ?thesis by simp
next
  case (Drop r c d)
  show ?thesis
  proof (cases "current w")
    case None
    with Drop show ?thesis by (simp add: dropW_def)
  next
    case (Some b)
    show ?thesis
    proof (cases "dropAt r c d (heap w ! b, bb_best w)")
      case (Inl err)
      with Some Drop show ?thesis by (simp add: dropW_def)
    next
      case (Inr res)
      obtain g' st' pending where "res = ((g', st'), pending)" by (cases res) auto
      with Inr have r: "dropAt r c d (heap w ! b, bb_best w) = Inr ((g', st'), pending)" by simp
      with Some Drop have h: "heap (step w e) = (heap w)[b := g']"
        by (simp add: dropW_def)
      show ?thesis
      proof (cases "a = b")
        case True
        with h assms have "heap (step w e) ! a = g'" by simp
        with pieces_dropAt [OF r] True show ?thesis by (simp only:) blast
      next
        case False
        with h show ?thesis by simp
      qed
    qed
  qed
next
  case (TimerFires k d)
  show ?thesis
  proof (cases "k < length (timers w)")
    case False
    with TimerFires show ?thesis by (simp add: fireW_def)
  next
    case True
    let ?t = "timers w ! k"
    obtain g' st' where r: "onTimeout (rows ?t) (cols ?t) d (heap w ! target ?t, bb_best w) = (g', st')"
      by (cases "onTimeout (rows ?t) (cols ?t) d (heap w ! target ?t, bb_best w)")
    with True TimerFires have h: "heap (step w e) = (heap w)[target ?t := g']"
      by (simp add: fireW_def Let_def)
    show ?thesis
    proof (cases "a = target ?t")
      case False
      with h show ?thesis by simp
    next
      case same: True
      with h assms have g': "heap (step w e) ! a = g'" by simp
      have "pieces g' = (if \<forall>x \<in> set (pieces (heap w ! target ?t)). x = None then freshTray d
          else pieces (heap w ! target ?t))"
        using pieces_onTimeout [of "rows ?t" "cols ?t" d "heap w ! target ?t" "bb_best w"]
        unfolding r by (simp only: fst_conv)
      then have p: "pieces g' = (if \<forall>x \<in> set (pieces (heap w ! a)). x = None then freshTray d
          else pieces (heap w ! a))"
        by (simp only: same)
      show ?thesis
      proof (cases "\<forall>x \<in> set (pieces (heap w ! a)). x = None")
        case False
        with p g' show ?thesis by simp
      next
        case True
        have "set ((pieces (heap w ! a))[0 := None]) \<subseteq> insert None (set (pieces (heap w ! a)))"
          by (rule set_update_subset_insert)
        with True have "\<forall>x \<in> set ((pieces (heap w ! a))[0 := None]). x = None" by auto
        moreover from True p g' have "pieces (heap (step w e) ! a) = freshTray d" by simp
        ultimately show ?thesis by blast
      qed
    qed
  qed
qed


text \<open>
  C6. The callback refills the tray with three fresh draws if and only if every slot is
  empty when it runs; otherwise it leaves the tray as it is. No other step fills a slot:
  \<^verbatim>\<open>selectPiece\<close> keeps the tray, the placement step empties one slot, and \<^verbatim>\<open>clearLines\<close>
  and the timer change the tray through the callback only. So in every state of the
  page, an event leaves the tray of a game as it was, or empties one slot, or replaces
  the whole tray by three draws after the last slot was emptied: no tray is refilled in
  part.
\<close>

theorem tray_refilled_iff_all_slots_empty:
  "pieces (fst (doneCallback d (g, st))) =
      (if \<forall>x \<in> set (pieces g). x = None then freshTray d else pieces g)
   \<and> length (freshTray d) = 3 \<and> (\<forall>x \<in> set (freshTray d). x \<noteq> None)
   \<and> pieces (selectPiece idx g) = pieces g
   \<and> pieces (place g i p r c) = (pieces g)[i := None]
   \<and> pieces (fst (fst (clearLines d (g, st)))) =
      (if lineCount (grid g) = 0 \<and> (\<forall>x \<in> set (pieces g). x = None) then freshTray d else pieces g)
   \<and> pieces (fst (onTimeout rs cs d (g, st))) =
      (if \<forall>x \<in> set (pieces g). x = None then freshTray d else pieces g)
   \<and> (\<forall>w e a. a < length (heap w) \<longrightarrow>
        pieces (heap (step w e) ! a) = pieces (heap w ! a)
        \<or> (\<exists>j. pieces (heap (step w e) ! a) = (pieces (heap w ! a))[j := None])
        \<or> (\<exists>d' j. pieces (heap (step w e) ! a) = freshTray d'
              \<and> (\<forall>x \<in> set ((pieces (heap w ! a))[j := None]). x = None)))"
proof -
  have fresh: "length (freshTray d) = 3" "\<forall>x \<in> set (freshTray d). x \<noteq> None"
    by (cases d; simp add: freshTray_def)+
  have other: "pieces (selectPiece idx g) = pieces g" "pieces (place g i p r c) = (pieces g)[i := None]"
    by (simp_all add: selectPiece_def place_def)
  have page: "\<forall>w e a. a < length (heap w) \<longrightarrow>
      pieces (heap (step w e) ! a) = pieces (heap w ! a)
      \<or> (\<exists>j. pieces (heap (step w e) ! a) = (pieces (heap w ! a))[j := None])
      \<or> (\<exists>d' j. pieces (heap (step w e) ! a) = freshTray d'
            \<and> (\<forall>x \<in> set ((pieces (heap w ! a))[j := None]). x = None))"
    using tray_of_step by blast
  from pieces_doneCallback [of d g st] fresh other pieces_clearLines [of d g st]
    pieces_onTimeout [of rs cs d g st] page
  show ?thesis by (simp only:)
qed

theorem tray_refilled_iff_all_slots_empty_witness:
  "pieces (fst (doneCallback (4, 5, 6) (emptyTrayGame, None)))
     = [Some (PIECES ! 4), Some (PIECES ! 5), Some (PIECES ! 6)]
   \<and> pieces (fst (doneCallback (4, 5, 6) (stuckGame, None))) = [None, Some (PIECES ! 1), None]
   \<and> pieces (fst (onTimeout [] [] (4, 5, 6) (stuckGame, None))) = [None, Some (PIECES ! 1), None]
   \<and> pieces (place freshSelected 0 (PIECES ! 7) 3 0) = [None, Some (PIECES ! 3), Some (PIECES ! 0)]"
proof -
  note c6 = tray_refilled_iff_all_slots_empty
  have s0: "pieces stuckGame = [None, Some (PIECES ! 1), None]"
    by (simp add: stuckGame_def startGame_def)
  have e0: "pieces emptyTrayGame = [None, None, None]"
    by (simp add: emptyTrayGame_def startGame_def)
  have f0: "pieces freshSelected = [Some (PIECES ! 7), Some (PIECES ! 3), Some (PIECES ! 0)]"
    by (simp add: freshSelected_def selectPiece_def startGame_def freshTray_def randPiece_def)
  from c6 [of "(4, 5, 6)" emptyTrayGame None]
  have a: "pieces (fst (doneCallback (4, 5, 6) (emptyTrayGame, None)))
      = [Some (PIECES ! 4), Some (PIECES ! 5), Some (PIECES ! 6)]"
    by (simp add: e0 freshTray_def randPiece_def)
  from c6 [of "(4, 5, 6)" stuckGame None _ _ _ _ _ "[]" "[]"]
  have b: "pieces (fst (doneCallback (4, 5, 6) (stuckGame, None))) = [None, Some (PIECES ! 1), None]"
    "pieces (fst (onTimeout [] [] (4, 5, 6) (stuckGame, None))) = [None, Some (PIECES ! 1), None]"
    by (simp_all add: s0)
  from c6 [of _ freshSelected _ _ 0 "PIECES ! 7" 3 0]
  have c: "pieces (place freshSelected 0 (PIECES ! 7) 3 0) = [None, Some (PIECES ! 3), Some (PIECES ! 0)]"
    by (simp add: f0)
  from a b c show ?thesis by simp
qed

subsection \<open>The events of the page\<close>

lemma doneCallback_best:
  "doneCallback d (g, st) = (g', st') \<Longrightarrow> score g' \<le> best g' \<and> (score g \<le> best g \<longrightarrow> st' = st)"
  by (auto simp: doneCallback_def saveBest_def Let_def split: if_splits prod.splits)

lemma clearLines_result:
  assumes "clearLines d (g, st) = ((g', st'), pending)"
  shows "score g' \<le> best g'" and "placing g' \<longleftrightarrow> placing g \<and> pending \<noteq> None"
proof -
  show "score g' \<le> best g'"
    using assms
    by (auto simp: clearLines_def doneCallback_def saveBest_def Let_def split: if_splits prod.splits)
  show "placing g' \<longleftrightarrow> placing g \<and> pending \<noteq> None"
  proof (cases "lineCount (grid g) = 0")
    case True
    with assms have r: "doneCallback d (g\<lparr>streak := 0, comboText := []\<rparr>, st) = (g', st')"
      and "pending = None"
      by (simp_all add: clearLines_none)
    from doneCallback_unfold [OF r] have "\<not> placing g'" by (cases g') simp
    with \<open>pending = None\<close> show ?thesis by simp
  next
    case False
    from clearLines_some [OF False assms] show ?thesis by (cases g') simp
  qed
qed

lemma dropAt_cases:
  assumes "dropAt r c d (g, st) = Inr ((g', st'), pending)"
  shows "(g' = g \<and> st' = st \<and> pending = None) \<or>
         (\<not> placing g \<and> (placing g' \<longleftrightarrow> pending \<noteq> None) \<and> score g' \<le> best g')"
proof (cases "placing g")
  case True
  with assms show ?thesis by (simp add: dropAt_def)
next
  case False
  show ?thesis
  proof (cases "selIdx g")
    case None
    with assms False show ?thesis by (simp add: dropAt_def)
  next
    case (Some i)
    show ?thesis
    proof (cases "slot (pieces g) i")
      case None
      with assms False Some show ?thesis by (simp add: dropAt_def)
    next
      case p: (Some p)
      show ?thesis
      proof (cases "canPlace (grid g) p r c")
        case no: False
        with assms False Some p show ?thesis by (simp add: dropAt_def)
      next
        case True
        with assms False Some p have "clearLines d (place g i p r c, st) = ((g', st'), pending)"
          by (simp add: dropAt_def)
        from clearLines_result [OF this] False show ?thesis
          by (simp add: place_def)
      qed
    qed
  qed
qed

lemma onTimeout_result:
  assumes "onTimeout rs cs d (g, st) = (g', st')"
  shows "\<not> placing g'" and "score g' \<le> best g'" and "score g \<le> best g \<Longrightarrow> st' = st"
proof -
  let ?g = "g\<lparr>grid := clearCells (grid g) rs cs, flashCells := {}, comboText := []\<rparr>"
  from assms have r: "doneCallback d (?g, st) = (g', st')"
    by (simp add: onTimeout_def)
  from doneCallback_unfold [OF r] show "\<not> placing g'" by (cases g') simp
  from doneCallback_best [OF r] show "score g' \<le> best g'" by simp
  from doneCallback_best [OF r] show "score g \<le> best g \<Longrightarrow> st' = st" by simp
qed

lemma filter_remove_nth:
  "k < length xs \<Longrightarrow>
     length (filter P (take k xs @ drop (Suc k) xs)) + (if P (xs ! k) then 1 else 0)
       = length (filter P xs)"
proof -
  assume "k < length xs"
  then have "xs = take k xs @ xs ! k # drop (Suc k) xs"
    by (rule id_take_nth_drop)
  then have "length (filter P xs) = length (filter P (take k xs @ xs ! k # drop (Suc k) xs))"
    by simp
  then show ?thesis by simp
qed

lemma consistent_initial: "consistent (initial st)"
  by (simp add: consistent_def initial_def)

lemma consistent_startGameW:
  assumes "consistent w"
  shows "consistent (startGameW d w)"
proof -
  from assms have old: "\<forall>t \<in> set (timers w). target t < length (heap w)"
    by (simp add: consistent_def)
  then have none: "filter (\<lambda>t. target t = length (heap w)) (timers w) = []"
    by (auto simp: filter_empty_conv)
  have new: "placing (startGame d st) = False" "score (startGame d st) \<le> best (startGame d st)" for st
    by (simp_all add: startGame_def)
  from assms old none new show ?thesis
    unfolding consistent_def startGameW_def pendingFor_def
    by (auto simp: nth_append less_Suc_eq)
qed

lemma consistent_update:
  assumes "consistent w" and "current w = Some a"
    and "placing g' = placing (heap w ! a)" and "score g' \<le> best g'"
  shows "consistent (w\<lparr>heap := (heap w)[a := g']\<rparr>)"
  using assms unfolding consistent_def pendingFor_def
  by (auto simp: nth_list_update)

lemma consistent_selectPieceW:
  assumes "consistent w"
  shows "consistent (selectPieceW idx w)"
proof (cases "current w")
  case None
  with assms show ?thesis by (simp add: selectPieceW_def)
next
  case (Some a)
  with assms have "score (heap w ! a) \<le> best (heap w ! a)"
    by (simp add: consistent_def)
  then have "placing (selectPiece idx (heap w ! a)) = placing (heap w ! a)"
    "score (selectPiece idx (heap w ! a)) \<le> best (selectPiece idx (heap w ! a))"
    by (simp_all add: selectPiece_def)
  from consistent_update [OF assms Some this] Some show ?thesis
    by (simp add: selectPieceW_def)
qed

lemma consistent_escapeW:
  assumes "consistent w"
  shows "consistent (escapeW w)"
proof (cases "current w")
  case None
  with assms show ?thesis by (simp add: escapeW_def)
next
  case (Some a)
  with assms have "score (heap w ! a) \<le> best (heap w ! a)"
    by (simp add: consistent_def)
  then have "placing ((heap w ! a)\<lparr>selIdx := None\<rparr>) = placing (heap w ! a)"
    "score ((heap w ! a)\<lparr>selIdx := None\<rparr>) \<le> best ((heap w ! a)\<lparr>selIdx := None\<rparr>)"
    by simp_all
  from consistent_update [OF assms Some this] Some show ?thesis
    by (simp add: escapeW_def)
qed

lemma consistent_dropW:
  assumes "consistent w"
  shows "consistent (dropW r c d w)"
proof (cases "current w")
  case None
  with assms show ?thesis by (simp add: dropW_def)
next
  case (Some a)
  with assms have a: "a < length (heap w)" by (simp add: consistent_def)
  show ?thesis
  proof (cases "dropAt r c d (heap w ! a, bb_best w)")
    case (Inl e)
    with assms Some show ?thesis by (simp add: dropW_def)
  next
    case (Inr res)
    obtain g' st' pending where res: "res = ((g', st'), pending)"
      by (cases res) auto
    with Inr have r: "dropAt r c d (heap w ! a, bb_best w) = Inr ((g', st'), pending)" by simp
    from dropAt_cases [OF r] show ?thesis
    proof
      assume "g' = heap w ! a \<and> st' = bb_best w \<and> pending = None"
      with Some r have "dropW r c d w = w" by (simp add: dropW_def)
      with assms show ?thesis by simp
    next
      assume placed: "\<not> placing (heap w ! a) \<and> (placing g' \<longleftrightarrow> pending \<noteq> None) \<and> score g' \<le> best g'"
      show ?thesis
      proof (cases pending)
        case None
        with Some r have w': "dropW r c d w = w\<lparr>heap := (heap w)[a := g'], bb_best := st'\<rparr>"
          by (simp add: dropW_def)
        from placed None have "placing g' = placing (heap w ! a)" "score g' \<le> best g'" by simp_all
        from consistent_update [OF assms Some this] show ?thesis
          unfolding w' by (simp add: consistent_def pendingFor_def)
      next
        case (Some lines)
        obtain rs cs where lines: "lines = (rs, cs)" by (cases lines)
        with Some \<open>current w = Some a\<close> r
        have w': "dropW r c d w = w\<lparr>heap := (heap w)[a := g'], bb_best := st',
            timers := timers w @ [\<lparr>target = a, rows = rs, cols = cs\<rparr>]\<rparr>"
          by (simp add: dropW_def)
        from placed Some have g': "placing g'" "\<not> placing (heap w ! a)" "score g' \<le> best g'"
          by simp_all
        from assms a g' show ?thesis
          unfolding w' consistent_def pendingFor_def
          by (auto simp: nth_list_update)
      qed
    qed
  qed
qed

lemma consistent_fireW:
  assumes "consistent w"
  shows "consistent (fireW k d w)"
proof (cases "k < length (timers w)")
  case False
  with assms show ?thesis by (simp add: fireW_def)
next
  case True
  let ?t = "timers w ! k"
  let ?a = "target ?t"
  obtain g' st' where r: "onTimeout (rows ?t) (cols ?t) d (heap w ! ?a, bb_best w) = (g', st')"
    by (cases "onTimeout (rows ?t) (cols ?t) d (heap w ! ?a, bb_best w)")
  with True have w': "fireW k d w = w\<lparr>heap := (heap w)[?a := g'], bb_best := st',
      timers := take k (timers w) @ drop (Suc k) (timers w)\<rparr>"
    by (simp add: fireW_def Let_def)
  from True have mem: "?t \<in> set (timers w)" by simp
  with assms have a: "?a < length (heap w)" by (simp add: consistent_def)
  note g' = onTimeout_result(1,2) [OF r]
  have count: "length (filter (\<lambda>t. target t = b) (take k (timers w) @ drop (Suc k) (timers w)))
      + (if ?a = b then 1 else 0) = pendingFor w b" for b
    using filter_remove_nth [OF True, of "\<lambda>t. target t = b"] by (simp add: pendingFor_def)
  have sub: "set (take k (timers w) @ drop (Suc k) (timers w)) \<subseteq> set (timers w)"
    using set_take_subset [of k "timers w"] set_drop_subset [of "Suc k" "timers w"] by auto
  have pend: "length (filter (\<lambda>t. target t = b) (take k (timers w) @ drop (Suc k) (timers w)))
      = (if placing ((heap w)[?a := g'] ! b) then 1 else 0)" if "b < length (heap w)" for b
  proof (cases "b = ?a")
    case True
    from assms a have "pendingFor w ?a \<le> 1" by (simp add: consistent_def)
    with count [of ?a]
    have "length (filter (\<lambda>t. target t = ?a) (take k (timers w) @ drop (Suc k) (timers w))) = 0"
      by (simp only: refl if_True)
    with True a g'(1) show ?thesis by (simp only: nth_list_update_eq if_False)
  next
    case False
    with count [of b] assms that show ?thesis by (simp add: consistent_def)
  qed
  from assms a g'(2) sub pend show ?thesis
    unfolding w' consistent_def pendingFor_def
    by (auto simp: nth_list_update)
qed

lemma consistent_step: "consistent w \<Longrightarrow> consistent (step w e)"
  by (cases e)
    (simp_all add: consistent_startGameW consistent_selectPieceW consistent_escapeW
      consistent_dropW consistent_fireW)

lemma consistent_run: "consistent w \<Longrightarrow> consistent (run w evs)"
  unfolding run_def by (induction evs arbitrary: w) (simp_all add: consistent_step)

lemma pendingWorld_facts:
  "current pendingWorld = Some 0"
  "length (heap pendingWorld) = 1"
  "placing (heap pendingWorld ! 0)"
  "timers pendingWorld = [\<lparr>target = 0, rows = [0], cols = []\<rparr>]"
  "selIdx (heap pendingWorld ! 0) = None"
  "score (heap pendingWorld ! 0) = 88"
  "pieces (heap pendingWorld ! 0) = [None, None, Some (PIECES ! 0)]"
  by code_simp+

lemma run_append: "run w (xs @ ys) = run (run w xs) ys"
  by (simp add: run_def)

lemma consistent_reachable: "consistent (run (initial st) evs)"
  by (rule consistent_run) (rule consistent_initial)

subsection \<open>While a clear is pending\<close>

text \<open>
  C7. The specification has \<^verbatim>\<open>selectPiece\<close> refused while \<^verbatim>\<open>placing\<close> is true; the code
  does not refuse it, since \<^verbatim>\<open>selectPiece\<close> never reads \<^verbatim>\<open>placing\<close>. After two drops have
  completed row 0 the timer is pending and \<^verbatim>\<open>placing\<close> is true; selecting slot 2 then
  changes \<^verbatim>\<open>selIdx\<close> from \<^verbatim>\<open>null\<close> to 2.
\<close>

theorem selectPiece_while_placing_counterexample:
  "current pendingWorld = Some 0 \<and> placing (heap pendingWorld ! 0)
   \<and> timers pendingWorld = [\<lparr>target = 0, rows = [0], cols = []\<rparr>]
   \<and> selIdx (heap pendingWorld ! 0) = None
   \<and> selIdx (heap (selectPieceW 2 pendingWorld) ! 0) = Some 2
   \<and> selectPieceW 2 pendingWorld \<noteq> pendingWorld"
proof -
  have "selIdx (heap (selectPieceW 2 pendingWorld) ! 0) = Some 2"
    by (simp add: selectPieceW_def pendingWorld_facts selectPiece_def slot_def)
  moreover from this pendingWorld_facts(5) have "selectPieceW 2 pendingWorld \<noteq> pendingWorld"
    by auto
  ultimately show ?thesis using pendingWorld_facts by simp
qed

text \<open>
  C7, with \<^verbatim>\<open>selectPiece\<close> as the code has it. In every state the page can reach,
  while \<^verbatim>\<open>placing\<close> is true for the current game every \<^verbatim>\<open>drop\<close> call changes nothing,
  exactly one timer is pending for that game and no game ever has more than one: at
  most one placement of a game is mid-flight. A \<^verbatim>\<open>selectPiece\<close> call in that time
  changes \<^verbatim>\<open>selIdx\<close> and nothing else: it toggles the selection when the slot holds a
  shape.
\<close>

theorem drop_refused_while_placing:
  assumes "w = run (initial st0) evs" and "current w = Some a" and "placing (heap w ! a)"
  shows "dropAt r c d (heap w ! a, bb_best w) = Inr ((heap w ! a, bb_best w), None)
     \<and> dropW r c d w = w
     \<and> selectPieceW idx w =
          w\<lparr>heap := (heap w)[a := (heap w ! a)\<lparr>selIdx := selIdx (selectPiece idx (heap w ! a))\<rparr>]\<rparr>
     \<and> selIdx (selectPiece idx (heap w ! a)) =
          (if slot (pieces (heap w ! a)) idx = None then selIdx (heap w ! a)
           else if selIdx (heap w ! a) = Some idx then None else Some idx)
     \<and> pendingFor w a = 1 \<and> (\<forall>b. pendingFor w b \<le> 1)"
proof -
  from assms(1) have inv: "consistent w" by (simp add: consistent_reachable)
  from assms(3) have d: "dropAt r c d (heap w ! a, bb_best w) = Inr ((heap w ! a, bb_best w), None)"
    by (simp add: dropAt_def)
  with assms(2) have dw: "dropW r c d w = w" by (simp add: dropW_def)
  have sel: "selectPiece idx g = g\<lparr>selIdx := selIdx (selectPiece idx g)\<rparr>" for g
    by (simp add: selectPiece_def)
  from assms(2) sel [of "heap w ! a"] have sw: "selectPieceW idx w =
      w\<lparr>heap := (heap w)[a := (heap w ! a)\<lparr>selIdx := selIdx (selectPiece idx (heap w ! a))\<rparr>]\<rparr>"
    by (simp add: selectPieceW_def)
  have si: "selIdx (selectPiece idx (heap w ! a)) =
      (if slot (pieces (heap w ! a)) idx = None then selIdx (heap w ! a)
       else if selIdx (heap w ! a) = Some idx then None else Some idx)"
    by (simp add: selectPiece_def)
  from inv assms(2) have a: "a < length (heap w)" by (simp add: consistent_def)
  with inv assms(3) have one: "pendingFor w a = 1" by (simp add: consistent_def)
  have most: "pendingFor w b \<le> 1" for b
  proof (cases "b < length (heap w)")
    case True
    with inv show ?thesis by (simp add: consistent_def)
  next
    case False
    with inv have "filter (\<lambda>t. target t = b) (timers w) = []"
      by (auto simp: consistent_def filter_empty_conv)
    then show ?thesis by (simp add: pendingFor_def)
  qed
  from d dw sw si one most show ?thesis by (simp only:) simp
qed

lemma pendingSelected_facts:
  "current pendingSelected = Some 0"
  "placing (heap pendingSelected ! 0)"
  "selIdx (heap pendingSelected ! 0) = Some 2"
  "slot (pieces (heap pendingSelected ! 0)) 2 = Some (PIECES ! 0)"
  "canPlace (grid (heap pendingSelected ! 0)) (PIECES ! 0) 3 3"
  by code_simp+

theorem drop_refused_while_placing_witness:
  "current pendingSelected = Some 0 \<and> placing (heap pendingSelected ! 0)
   \<and> selIdx (heap pendingSelected ! 0) = Some 2
   \<and> slot (pieces (heap pendingSelected ! 0)) 2 = Some (PIECES ! 0)
   \<and> canPlace (grid (heap pendingSelected ! 0)) (PIECES ! 0) 3 3
   \<and> dropW 3 3 (1, 2, 3) pendingSelected = pendingSelected
   \<and> pendingFor pendingSelected 0 = 1
   \<and> selIdx (selectPiece 2 (heap pendingSelected ! 0)) = None"
proof -
  note c7 = drop_refused_while_placing [OF pendingSelected_def pendingSelected_facts(1,2),
      of 3 3 "(1, 2, 3)" 2]
  from c7 have "dropW 3 3 (1, 2, 3) pendingSelected = pendingSelected"
    "pendingFor pendingSelected 0 = 1"
    by simp_all
  moreover from c7 [THEN conjunct2, THEN conjunct2, THEN conjunct2, THEN conjunct1]
  have "selIdx (selectPiece 2 (heap pendingSelected ! 0)) = None"
    by (simp add: pendingSelected_facts)
  ultimately show ?thesis using pendingSelected_facts by simp
qed

subsection \<open>A new game while a clear is pending\<close>

lemma current_run_no_start:
  "\<forall>e \<in> set evs. \<not> isStartGame e \<Longrightarrow> current (run w evs) = current w"
proof (induction evs arbitrary: w)
  case Nil
  show ?case by (simp add: run_def)
next
  case (Cons e evs)
  from Cons.prems have "current (step w e) = current w"
    by (cases e)
      (auto simp: selectPieceW_def escapeW_def dropW_def fireW_def Let_def
        split: option.splits sum.splits prod.splits)
  with Cons show ?case by (simp add: run_def)
qed

text \<open>
  C9. A timer is pending when \<^verbatim>\<open>startGame\<close> runs. Its callback holds the state object of
  the game that set it, and \<^verbatim>\<open>startGame\<close> makes a new object: whenever the old timer
  fires later, after any events of the new game, the new game's object (grid, tray,
  score, game-over marker and every other field) is unchanged, \<^verbatim>\<open>G.current\<close> still points
  to it, and the stored best score is unchanged.
\<close>

theorem stale_timer_leaves_new_game_untouched:
  assumes "w = run (initial st0) evs0"
    and "t \<in> set (timers w)"
    and "w1 = run (startGameW d w) evs1" and "\<forall>e \<in> set evs1. \<not> isStartGame e"
    and "k < length (timers w1)" and "timers w1 ! k = t"
  shows "target t < length (heap w)
     \<and> current w1 = Some (length (heap w))
     \<and> length (heap w) < length (heap w1)
     \<and> current (fireW k d' w1) = current w1
     \<and> heap (fireW k d' w1) ! length (heap w) = heap w1 ! length (heap w)
     \<and> bb_best (fireW k d' w1) = bb_best w1"
proof -
  let ?a = "length (heap w)"
  from assms(1) have inv: "consistent w" by (simp add: consistent_reachable)
  with assms(2) have old: "target t < ?a" by (simp add: consistent_def)
  from inv have "consistent (startGameW d w)" by (rule consistent_startGameW)
  with assms(3) have inv1: "consistent w1" by (simp add: consistent_run)
  from assms(3,4) have cur: "current w1 = Some ?a"
    by (simp add: current_run_no_start startGameW_def)
  with inv1 have len: "?a < length (heap w1)" by (simp add: consistent_def)
  obtain g' st' where r: "onTimeout (rows t) (cols t) d' (heap w1 ! target t, bb_best w1) = (g', st')"
    by (cases "onTimeout (rows t) (cols t) d' (heap w1 ! target t, bb_best w1)")
  with assms(5,6) have w': "fireW k d' w1 = w1\<lparr>heap := (heap w1)[target t := g'], bb_best := st',
      timers := take k (timers w1) @ drop (Suc k) (timers w1)\<rparr>"
    by (simp add: fireW_def Let_def)
  from old len have "target t < length (heap w1)" by simp
  with inv1 have "score (heap w1 ! target t) \<le> best (heap w1 ! target t)"
    by (simp add: consistent_def)
  from onTimeout_result(3) [OF r this] have st: "st' = bb_best w1" .
  from old have same: "(heap w1)[target t := g'] ! ?a = heap w1 ! ?a" by simp
  from old cur len w' st same show ?thesis by simp
qed

lemma restarted_facts:
  "timers restarted = [\<lparr>target = 0, rows = [0], cols = []\<rparr>]"
  "score (heap restarted ! 1) = 1"
  "grid (heap restarted ! 0) ! 0 ! 0 = Some ''#a3e635''"
  "grid (heap (fireW 0 (2, 2, 2) restarted) ! 0) ! 0 ! 0 = None"
  "timers (fireW 0 (2, 2, 2) restarted) = []"
  by code_simp+

theorem stale_timer_leaves_new_game_untouched_witness:
  "\<lparr>target = 0, rows = [0], cols = []\<rparr> \<in> set (timers pendingWorld)
   \<and> timers restarted ! 0 = \<lparr>target = 0, rows = [0], cols = []\<rparr>
   \<and> current restarted = Some 1
   \<and> score (heap restarted ! 1) = 1
   \<and> grid (heap restarted ! 0) ! 0 ! 0 = Some ''#a3e635''
   \<and> grid (heap (fireW 0 (2, 2, 2) restarted) ! 0) ! 0 ! 0 = None
   \<and> current (fireW 0 (2, 2, 2) restarted) = Some 1
   \<and> heap (fireW 0 (2, 2, 2) restarted) ! 1 = heap restarted ! 1
   \<and> bb_best (fireW 0 (2, 2, 2) restarted) = bb_best restarted"
proof -
  have t: "\<lparr>target = 0, rows = [0], cols = []\<rparr> \<in> set (timers pendingWorld)"
    by (simp add: pendingWorld_facts)
  have ev: "\<forall>e \<in> set [SelectPiece 0, Drop 4 4 (1, 1, 1)]. \<not> isStartGame e"
    by simp
  have k: "0 < length (timers restarted)" "timers restarted ! 0 = \<lparr>target = 0, rows = [0], cols = []\<rparr>"
    by (simp_all add: restarted_facts)
  from stale_timer_leaves_new_game_untouched [OF pendingWorld_def t restarted_def ev k, of "(2, 2, 2)"]
  have "current restarted = Some 1" "current (fireW 0 (2, 2, 2) restarted) = Some 1"
    "heap (fireW 0 (2, 2, 2) restarted) ! 1 = heap restarted ! 1"
    "bb_best (fireW 0 (2, 2, 2) restarted) = bb_best restarted"
    by (simp_all add: pendingWorld_facts)
  with t k restarted_facts show ?thesis by simp
qed

subsection \<open>Every state the page reaches is well formed\<close>

text \<open>
  The grids and trays of the theorems above are those of the program: every event, with
  draws that \<^verbatim>\<open>randPiece\<close> can make, keeps the objects well formed, and \<^verbatim>\<open>drop\<close> never reads
  an empty slot.
\<close>

lemma freshTray_catalog:
  assumes "validDraws d"
  shows "length (freshTray d) = 3" and "Some p \<in> set (freshTray d) \<Longrightarrow> p \<in> set PIECES"
  using assms by (cases d; auto simp: validDraws_def freshTray_def randPiece_def)+

lemma wfGame_startGame: "validDraws d \<Longrightarrow> wfGame (startGame d st)"
  using freshTray_catalog [of d]
  by (auto simp: wfGame_def startGame_def wf_grid_makeGrid)

lemma wfGame_selectPiece: "wfGame g \<Longrightarrow> wfGame (selectPiece idx g)"
  by (auto simp: wfGame_def selectPiece_def)

lemma wf_grid_setCell:
  assumes "wf_grid gr" and "v \<noteq> Some []"
  shows "wf_grid (setCell gr r c v)"
proof (cases "r < length gr")
  case False
  then have "gr[r := (gr ! r)[c := v]] = gr" by (simp add: list_update_beyond)
  with assms show ?thesis by (simp add: setCell_def)
next
  case True
  let ?row = "(gr ! r)[c := v]"
  from True have "gr ! r \<in> set gr" by simp
  with assms(1) have old: "length (gr ! r) = GRID_SIZE" "\<forall>x \<in> set (gr ! r). x \<noteq> Some []"
    unfolding wf_grid_def list_all_iff by blast+
  have "set ?row \<subseteq> insert v (set (gr ! r))" by (rule set_update_subset_insert)
  with old assms(2) have row: "length ?row = GRID_SIZE" "\<forall>x \<in> set ?row. x \<noteq> Some []"
    by auto
  have "set (gr[r := ?row]) \<subseteq> insert ?row (set gr)" by (rule set_update_subset_insert)
  with assms(1) row show ?thesis
    unfolding wf_grid_def setCell_def list_all_iff by auto
qed

lemma wf_grid_fillCells: "wf_grid gr \<Longrightarrow> col \<noteq> [] \<Longrightarrow> wf_grid (fillCells gr cs r c col)"
  by (induction gr cs r c col rule: fillCells.induct) (simp_all add: wf_grid_setCell)

lemma wf_grid_clearCells: "wf_grid gr \<Longrightarrow> wf_grid (clearCells gr rs cs)"
proof -
  have inner_r: "wf_grid g \<Longrightarrow> wf_grid (fold (\<lambda>c gr. setCell gr r c None) xs g)" for g r xs
    by (induction xs arbitrary: g) (simp_all add: wf_grid_setCell)
  have inner_c: "wf_grid g \<Longrightarrow> wf_grid (fold (\<lambda>r gr. setCell gr r c None) xs g)" for g c xs
    by (induction xs arbitrary: g) (simp_all add: wf_grid_setCell)
  have outer_r: "wf_grid g \<Longrightarrow>
      wf_grid (fold (\<lambda>r gr. fold (\<lambda>c gr. setCell gr r c None) [0..<GRID_SIZE] gr) xs g)" for g xs
    by (induction xs arbitrary: g) (simp_all add: inner_r)
  have outer_c: "wf_grid g \<Longrightarrow>
      wf_grid (fold (\<lambda>c gr. fold (\<lambda>r gr. setCell gr r c None) [0..<GRID_SIZE] gr) xs g)" for g xs
    by (induction xs arbitrary: g) (simp_all add: inner_c)
  assume "wf_grid gr"
  then show ?thesis
    unfolding clearCells_def by (intro outer_c outer_r)
qed

lemma wfGame_place:
  assumes "wfGame g" and "slot (pieces g) i = Some p"
  shows "wfGame (place g i p r c)"
proof -
  from assms(2) have "i < length (pieces g)" "pieces g ! i = Some p"
    by (simp_all add: slot_def split: if_splits)
  then have "Some p \<in> set (pieces g)"
    by (metis nth_mem)
  with assms(1) have "p \<in> set PIECES" by (simp add: wfGame_def)
  then have "color p \<noteq> []" using catalog_wf_shape by (simp add: wf_shape_def)
  with assms(1) have "wf_grid (fillCells (grid g) (cells p) r c (color p))"
    by (simp add: wfGame_def wf_grid_fillCells)
  moreover have "set ((pieces g)[i := None]) \<subseteq> insert None (set (pieces g))"
    by (rule set_update_subset_insert)
  ultimately show ?thesis
    using assms(1) unfolding wfGame_def place_def by auto
qed

lemma wfGame_doneCallback:
  assumes "wfGame g" and "validDraws d" and "doneCallback d (g, st) = (g', st')"
  shows "wfGame g'"
proof -
  note u = doneCallback_unfold [OF assms(3)]
  then have f: "grid g' = grid g" "selIdx g' = selIdx g"
    "pieces g' = (if list_all (\<lambda>x. x = None) (pieces g) then freshTray d else pieces g)"
    by (cases g'; simp)+
  show ?thesis
  proof (cases "list_all (\<lambda>x. x = None) (pieces g)")
    case False
    with f assms(1) show ?thesis by (simp add: wfGame_def)
  next
    case True
    have "selIdx g = None"
    proof (cases "selIdx g")
      case (Some i)
      with assms(1) have "slot (pieces g) i \<noteq> None" by (simp add: wfGame_def)
      with True show ?thesis by (auto simp: slot_def list_all_length split: if_splits)
    qed simp
    with True f assms(1) freshTray_catalog [OF assms(2)] show ?thesis
      by (auto simp: wfGame_def)
  qed
qed

lemma wfGame_clearLines:
  assumes "wfGame g" and "validDraws d" and "clearLines d (g, st) = ((g', st'), pending)"
  shows "wfGame g'"
    and "pending = Some (rs, cs) \<Longrightarrow> set rs \<subseteq> {0..<GRID_SIZE} \<and> set cs \<subseteq> {0..<GRID_SIZE}"
proof -
  show "wfGame g'"
  proof (cases "lineCount (grid g) = 0")
    case True
    with assms(3) have "doneCallback d (g\<lparr>streak := 0, comboText := []\<rparr>, st) = (g', st')"
      by (simp add: clearLines_none)
    moreover from assms(1) have "wfGame (g\<lparr>streak := 0, comboText := []\<rparr>)"
      by (simp add: wfGame_def)
    ultimately show ?thesis using assms(2) wfGame_doneCallback by blast
  next
    case False
    from clearLines_some [OF False assms(3)] have "grid g' = grid g" "pieces g' = pieces g"
      "selIdx g' = selIdx g"
      by (cases g'; simp)+
    with assms(1) show ?thesis by (simp add: wfGame_def)
  qed
  show "set rs \<subseteq> {0..<GRID_SIZE} \<and> set cs \<subseteq> {0..<GRID_SIZE}" if "pending = Some (rs, cs)"
  proof (cases "lineCount (grid g) = 0")
    case True
    with assms(3) that show ?thesis by (simp add: clearLines_none)
  next
    case False
    from clearLines_some [OF False assms(3)] that show ?thesis
      by (simp add: rowsToClear_subset colsToClear_subset)
  qed
qed

lemma wfGame_onTimeout:
  assumes "wfGame g" and "validDraws d" and "onTimeout rs cs d (g, st) = (g', st')"
  shows "wfGame g'"
proof -
  let ?g = "g\<lparr>grid := clearCells (grid g) rs cs, flashCells := {}, comboText := []\<rparr>"
  from assms(1) have "wfGame ?g" by (simp add: wfGame_def wf_grid_clearCells)
  moreover from assms(3) have "doneCallback d (?g, st) = (g', st')" by (simp add: onTimeout_def)
  ultimately show ?thesis using assms(2) wfGame_doneCallback by blast
qed

lemma wfGame_dropAt:
  assumes "wfGame g" and "validDraws d"
  shows "\<exists>g' st' pending. dropAt r c d (g, st) = Inr ((g', st'), pending) \<and> wfGame g' \<and>
     (\<forall>rs cs. pending = Some (rs, cs) \<longrightarrow> set rs \<subseteq> {0..<GRID_SIZE} \<and> set cs \<subseteq> {0..<GRID_SIZE})"
proof (cases "placing g \<or> selIdx g = None")
  case True
  with assms(1) show ?thesis by (auto simp: dropAt_def)
next
  case False
  then obtain i where i: "selIdx g = Some i" and np: "\<not> placing g" by auto
  with assms(1) obtain p where p: "slot (pieces g) i = Some p" by (auto simp: wfGame_def)
  show ?thesis
  proof (cases "canPlace (grid g) p r c")
    case False
    with i np p assms(1) show ?thesis by (simp add: dropAt_def)
  next
    case True
    obtain g' st' pending where cl: "clearLines d (place g i p r c, st) = ((g', st'), pending)"
      by (cases "clearLines d (place g i p r c, st)") auto
    with True i np p have "dropAt r c d (g, st) = Inr ((g', st'), pending)"
      by (simp add: dropAt_def)
    with wfGame_clearLines [OF wfGame_place [OF assms(1) p] assms(2) cl] show ?thesis
      by blast
  qed
qed

lemma wfWorld_update:
  assumes "wfWorld w" and "wfGame g'"
  shows "wfWorld (w\<lparr>heap := (heap w)[a := g']\<rparr>)"
proof -
  have "set ((heap w)[a := g']) \<subseteq> insert g' (set (heap w))"
    by (rule set_update_subset_insert)
  with assms show ?thesis unfolding wfWorld_def by auto
qed

lemma wfWorld_step:
  assumes "wfWorld w" and "validEvent e"
  shows "wfWorld (step w e)"
proof (cases e)
  case (StartGame d)
  with assms wfGame_startGame [of d "bb_best w"] show ?thesis
    by (auto simp: wfWorld_def startGameW_def less_Suc_eq)
next
  case (SelectPiece idx)
  show ?thesis
  proof (cases "current w")
    case None
    with assms SelectPiece show ?thesis by (simp add: selectPieceW_def)
  next
    case (Some a)
    with assms(1) have "wfGame (heap w ! a)" by (simp add: wfWorld_def)
    from wfWorld_update [OF assms(1) wfGame_selectPiece [OF this]] Some SelectPiece
    show ?thesis by (simp add: selectPieceW_def)
  qed
next
  case Escape
  show ?thesis
  proof (cases "current w")
    case None
    with assms Escape show ?thesis by (simp add: escapeW_def)
  next
    case (Some a)
    with assms(1) have "wfGame (heap w ! a)" by (simp add: wfWorld_def)
    then have "wfGame ((heap w ! a)\<lparr>selIdx := None\<rparr>)" by (simp add: wfGame_def)
    from wfWorld_update [OF assms(1) this] Some Escape
    show ?thesis by (simp add: escapeW_def)
  qed
next
  case (Drop r c d)
  show ?thesis
  proof (cases "current w")
    case None
    with assms Drop show ?thesis by (simp add: dropW_def)
  next
    case (Some a)
    with assms(1) have a: "a < length (heap w)" and g: "wfGame (heap w ! a)"
      by (simp_all add: wfWorld_def)
    from assms(2) Drop have d: "validDraws d" by simp
    from wfGame_dropAt [OF g d, of r c "bb_best w"] obtain g' st' pending
      where r: "dropAt r c d (heap w ! a, bb_best w) = Inr ((g', st'), pending)"
        and g': "wfGame g'"
        and p: "\<forall>rs cs. pending = Some (rs, cs) \<longrightarrow>
          set rs \<subseteq> {0..<GRID_SIZE} \<and> set cs \<subseteq> {0..<GRID_SIZE}"
      by blast
    from wfWorld_update [OF assms(1) g', of a] a p have
      "wfWorld (w\<lparr>heap := (heap w)[a := g'], bb_best := st',
         timers := timers w @ (case pending of None \<Rightarrow> []
           | Some (rs, cs) \<Rightarrow> [\<lparr>target = a, rows = rs, cols = cs\<rparr>])\<rparr>)"
      by (auto simp: wfWorld_def subset_iff split: option.splits)
    with Some r Drop show ?thesis by (simp add: dropW_def)
  qed
next
  case (TimerFires k d)
  show ?thesis
  proof (cases "k < length (timers w)")
    case False
    with assms TimerFires show ?thesis by (simp add: fireW_def)
  next
    case True
    let ?t = "timers w ! k"
    from True have "?t \<in> set (timers w)" by simp
    with assms(1) have "target ?t < length (heap w)" by (simp add: wfWorld_def)
    with assms(1) have g: "wfGame (heap w ! target ?t)" by (simp add: wfWorld_def)
    from assms(2) TimerFires have d: "validDraws d" by simp
    obtain g' st' where r: "onTimeout (rows ?t) (cols ?t) d (heap w ! target ?t, bb_best w) = (g', st')"
      by (cases "onTimeout (rows ?t) (cols ?t) d (heap w ! target ?t, bb_best w)")
    have sub: "set (take k (timers w) @ drop (Suc k) (timers w)) \<subseteq> set (timers w)"
      using set_take_subset [of k "timers w"] set_drop_subset [of "Suc k" "timers w"] by auto
    from wfWorld_update [OF assms(1) wfGame_onTimeout [OF g d r], of "target ?t"] sub
    have "wfWorld (w\<lparr>heap := (heap w)[target ?t := g'], bb_best := st',
        timers := take k (timers w) @ drop (Suc k) (timers w)\<rparr>)"
      unfolding wfWorld_def by (simp add: subset_iff) blast
    with True r TimerFires show ?thesis by (simp add: fireW_def Let_def)
  qed
qed

lemma wfWorld_reachable:
  "\<forall>e \<in> set evs. validEvent e \<Longrightarrow> wfWorld (run (initial st) evs)"
proof (induction evs rule: rev_induct)
  case Nil
  show ?case by (simp add: run_def initial_def wfWorld_def)
next
  case (snoc e evs)
  then show ?case by (simp add: run_def wfWorld_step)
qed

lemma drop_never_throws:
  assumes "\<forall>e \<in> set evs. validEvent e" and "w = run (initial st) evs"
    and "current w = Some a" and "validDraws d"
  shows "dropAt r c d (heap w ! a, bb_best w) \<noteq> Inl err"
proof -
  from assms(1,2) have "wfWorld w" by (simp add: wfWorld_reachable)
  with assms(3) have "wfGame (heap w ! a)" by (simp add: wfWorld_def)
  from wfGame_dropAt [OF this assms(4), of r c "bb_best w"] show ?thesis by auto
qed

subsection \<open>Game over\<close>

lemma doneCallback_over:
  assumes "doneCallback d (g, st) = (g', st')" and "gameOverMsg g = None"
  shows "gameOverMsg g' \<noteq> None \<longleftrightarrow> \<not> hasAnyMove (grid g') (pieces g')"
    and "\<not> placing g'" and "grid g' = grid g"
    and "pieces g' = (if \<forall>x \<in> set (pieces g). x = None then freshTray d else pieces g)"
proof -
  show "gameOverMsg g' \<noteq> None \<longleftrightarrow> \<not> hasAnyMove (grid g') (pieces g')"
    using doneCallback_gameOverMsg [OF assms(1)] assms(2) by simp
  from doneCallback_unfold [OF assms(1)] show "\<not> placing g'" "grid g' = grid g"
    by (cases g'; simp)+
  from pieces_doneCallback [of d g st] assms(1)
  show "pieces g' = (if \<forall>x \<in> set (pieces g). x = None then freshTray d else pieces g)"
    by (simp only: fst_conv)
qed

lemma no_move_refuses_drop:
  assumes "wfGame g" and "\<not> hasAnyMove (grid g) (pieces g)" and "slot (pieces g) i = Some p"
  shows "\<not> canPlace (grid g) p r c"
proof
  assume ok: "canPlace (grid g) p r c"
  from assms(3) have "i < length (pieces g)" "pieces g ! i = Some p"
    by (simp_all add: slot_def split: if_splits)
  then have mem: "Some p \<in> set (pieces g)" by (metis nth_mem)
  with assms(1) have "wf_shape p" by (simp add: wfGame_def catalog_wf_shape)
  from canPlace_anchor_in_grid [OF this ok]
  have "nat r < GRID_SIZE" "nat c < GRID_SIZE" "int (nat r) = r" "int (nat c) = c"
    by auto
  with ok mem have "hasAnyMove (grid g) (pieces g)"
    unfolding hasAnyMove_iff by metis
  with assms(2) show False by simp
qed

lemma dropAt_over:
  assumes "wfGame g"
    and "gameOverMsg g \<noteq> None \<longrightarrow> \<not> placing g \<and> \<not> hasAnyMove (grid g) (pieces g)"
    and "dropAt r c d (g, st) = Inr ((g', st'), pending)"
  shows "gameOverMsg g' \<noteq> None \<longrightarrow> \<not> placing g' \<and> \<not> hasAnyMove (grid g') (pieces g')"
proof (cases "placing g \<or> selIdx g = None")
  case True
  with assms(3) have "g' = g" by (auto simp: dropAt_def split: if_splits)
  with assms(2) show ?thesis by simp
next
  case False
  then obtain i where i: "selIdx g = Some i" and np: "\<not> placing g" by auto
  with assms(1) obtain p where p: "slot (pieces g) i = Some p" by (auto simp: wfGame_def)
  show ?thesis
  proof (cases "canPlace (grid g) p r c")
    case False
    with assms(3) i np p have "g' = g" by (simp add: dropAt_def)
    with assms(2) show ?thesis by simp
  next
    case True
    with no_move_refuses_drop [OF assms(1) _ p] assms(2) have none: "gameOverMsg g = None"
      by blast
    let ?g = "place g i p r c"
    from True assms(3) i np p have cl: "clearLines d (?g, st) = ((g', st'), pending)"
      by (simp add: dropAt_def)
    from none have pn: "gameOverMsg ?g = None" by (simp add: place_def)
    show ?thesis
    proof (cases "lineCount (grid ?g) = 0")
      case True
      with cl have "doneCallback d (?g\<lparr>streak := 0, comboText := []\<rparr>, st) = (g', st')"
        by (simp add: clearLines_none)
      from doneCallback_over(1,2) [OF this] pn show ?thesis by simp
    next
      case False
      from clearLines_some [OF False cl] have "gameOverMsg g' = gameOverMsg ?g"
        by (cases g') simp
      with pn show ?thesis by simp
    qed
  qed
qed

lemma onTimeout_over:
  assumes "onTimeout rs cs d (g, st) = (g', st')" and "gameOverMsg g = None"
  shows "gameOverMsg g' \<noteq> None \<longleftrightarrow> \<not> hasAnyMove (grid g') (pieces g')"
    and "\<not> placing g'" and "grid g' = clearCells (grid g) rs cs"
    and "pieces g' = (if \<forall>x \<in> set (pieces g). x = None then freshTray d else pieces g)"
proof -
  let ?g = "g\<lparr>grid := clearCells (grid g) rs cs, flashCells := {}, comboText := []\<rparr>"
  from assms(1) have r: "doneCallback d (?g, st) = (g', st')" by (simp add: onTimeout_def)
  from assms(2) have n: "gameOverMsg ?g = None" by simp
  from doneCallback_over(1) [OF r n]
  show "gameOverMsg g' \<noteq> None \<longleftrightarrow> \<not> hasAnyMove (grid g') (pieces g')" .
  from doneCallback_over(2) [OF r n] show "\<not> placing g'" .
  from doneCallback_over(3) [OF r n] show "grid g' = clearCells (grid g) rs cs" by simp
  have pg: "pieces ?g = pieces g" by simp
  from doneCallback_over(4) [OF r n]
  show "pieces g' = (if \<forall>x \<in> set (pieces g). x = None then freshTray d else pieces g)"
    by (simp only: pg)
qed

lemma timer_means_placing:
  assumes "consistent w" and "k < length (timers w)"
  shows "target (timers w ! k) < length (heap w)" and "placing (heap w ! target (timers w ! k))"
proof -
  let ?t = "timers w ! k"
  from assms(2) have mem: "?t \<in> set (timers w)" by simp
  with assms(1) show a: "target ?t < length (heap w)" by (simp add: consistent_def)
  from mem have "filter (\<lambda>t. target t = target ?t) (timers w) \<noteq> []"
    by (auto simp: filter_empty_conv)
  then have "pendingFor w (target ?t) \<noteq> 0" by (simp add: pendingFor_def)
  with assms(1) a show "placing (heap w ! target ?t)"
    by (auto simp: consistent_def split: if_splits)
qed

lemma overSound_update:
  assumes "overSound w"
    and "gameOverMsg g' \<noteq> None \<longrightarrow> \<not> placing g' \<and> \<not> hasAnyMove (grid g') (pieces g')"
  shows "overSound (w\<lparr>heap := (heap w)[a := g'], bb_best := st', timers := ts\<rparr>)"
proof -
  have "set ((heap w)[a := g']) \<subseteq> insert g' (set (heap w))"
    by (rule set_update_subset_insert)
  with assms show ?thesis unfolding overSound_def by auto
qed

lemma overSound_step:
  assumes "wfWorld w" and "consistent w" and "overSound w" and "validEvent e"
  shows "overSound (step w e)"
proof (cases e)
  case (StartGame d)
  with assms(3) show ?thesis
    by (auto simp: overSound_def startGameW_def startGame_def)
next
  case (SelectPiece idx)
  show ?thesis
  proof (cases "current w")
    case None
    with assms(3) SelectPiece show ?thesis by (simp add: selectPieceW_def)
  next
    case (Some a)
    with assms(1) have "heap w ! a \<in> set (heap w)" by (simp add: wfWorld_def)
    with assms(3) have "gameOverMsg (selectPiece idx (heap w ! a)) \<noteq> None \<longrightarrow>
        \<not> placing (selectPiece idx (heap w ! a)) \<and>
        \<not> hasAnyMove (grid (selectPiece idx (heap w ! a))) (pieces (selectPiece idx (heap w ! a)))"
      by (simp add: overSound_def selectPiece_def)
    from overSound_update [OF assms(3) this, where a = a and st' = "bb_best w" and ts = "timers w"] Some SelectPiece
    show ?thesis by (simp add: selectPieceW_def)
  qed
next
  case Escape
  show ?thesis
  proof (cases "current w")
    case None
    with assms(3) Escape show ?thesis by (simp add: escapeW_def)
  next
    case (Some a)
    with assms(1) have "heap w ! a \<in> set (heap w)" by (simp add: wfWorld_def)
    with assms(3) have "gameOverMsg ((heap w ! a)\<lparr>selIdx := None\<rparr>) \<noteq> None \<longrightarrow>
        \<not> placing ((heap w ! a)\<lparr>selIdx := None\<rparr>) \<and>
        \<not> hasAnyMove (grid ((heap w ! a)\<lparr>selIdx := None\<rparr>)) (pieces ((heap w ! a)\<lparr>selIdx := None\<rparr>))"
      by (simp add: overSound_def)
    from overSound_update [OF assms(3) this, where a = a and st' = "bb_best w" and ts = "timers w"] Some Escape
    show ?thesis by (simp add: escapeW_def)
  qed
next
  case (Drop r c d)
  show ?thesis
  proof (cases "current w")
    case None
    with assms(3) Drop show ?thesis by (simp add: dropW_def)
  next
    case (Some a)
    with assms(1) have mem: "heap w ! a \<in> set (heap w)" by (simp add: wfWorld_def)
    with assms(1) have wf: "wfGame (heap w ! a)" by (simp add: wfWorld_def)
    from mem assms(3) have sound: "gameOverMsg (heap w ! a) \<noteq> None \<longrightarrow>
        \<not> placing (heap w ! a) \<and> \<not> hasAnyMove (grid (heap w ! a)) (pieces (heap w ! a))"
      by (simp add: overSound_def)
    show ?thesis
    proof (cases "dropAt r c d (heap w ! a, bb_best w)")
      case (Inl err)
      with assms(3) Some Drop show ?thesis by (simp add: dropW_def)
    next
      case (Inr res)
      obtain g' st' pending where "res = ((g', st'), pending)" by (cases res) auto
      with Inr have r: "dropAt r c d (heap w ! a, bb_best w) = Inr ((g', st'), pending)" by simp
      from overSound_update [OF assms(3) dropAt_over [OF wf sound r]] Some r Drop
      show ?thesis by (simp add: dropW_def)
    qed
  qed
next
  case (TimerFires k d)
  show ?thesis
  proof (cases "k < length (timers w)")
    case False
    with assms(3) TimerFires show ?thesis by (simp add: fireW_def)
  next
    case True
    let ?t = "timers w ! k"
    note tp = timer_means_placing [OF assms(2) True]
    from tp(1) have "heap w ! target ?t \<in> set (heap w)" by simp
    with assms(3) tp(2) have none: "gameOverMsg (heap w ! target ?t) = None"
      unfolding overSound_def by blast
    obtain g' st' where r: "onTimeout (rows ?t) (cols ?t) d (heap w ! target ?t, bb_best w) = (g', st')"
      by (cases "onTimeout (rows ?t) (cols ?t) d (heap w ! target ?t, bb_best w)")
    from onTimeout_over(1,2) [OF r none]
    have "gameOverMsg g' \<noteq> None \<longrightarrow> \<not> placing g' \<and> \<not> hasAnyMove (grid g') (pieces g')"
      by simp
    from overSound_update [OF assms(3) this] True r TimerFires
    show ?thesis by (simp add: fireW_def Let_def)
  qed
qed

lemma overSound_reachable:
  "\<forall>e \<in> set evs. validEvent e \<Longrightarrow> overSound (run (initial st) evs)"
proof (induction evs rule: rev_induct)
  case Nil
  show ?case by (simp add: run_def initial_def overSound_def)
next
  case (snoc e evs)
  then have "\<forall>e \<in> set evs. validEvent e" and e: "validEvent e" by simp_all
  from overSound_step [OF wfWorld_reachable [OF this(1)] consistent_reachable snoc.IH [OF this(1)] e]
  show ?case by (simp add: run_def)
qed

lemma no_move_iff:
  "\<not> hasAnyMove gr ps \<longleftrightarrow>
     (\<forall>q x y. Some q \<in> set ps \<and> x < 8 \<and> y < 8 \<longrightarrow> \<not> canPlace gr q (int x) (int y))"
  unfolding hasAnyMove_iff GRID_SIZE_def by blast

lemma marker_after_timer:
  assumes "consistent w" and "overSound w"
    and "k < length (timers w)" and "target (timers w ! k) = a"
    and "g = heap w ! a" and "g' = heap (fireW k d w) ! a"
  shows "gameOverMsg g = None"
    and "grid g' = clearCells (grid g) (rows (timers w ! k)) (cols (timers w ! k))"
    and "pieces g' = (if \<forall>x \<in> set (pieces g). x = None then freshTray d else pieces g)"
    and "\<not> placing g'"
    and "gameOverMsg g' \<noteq> None \<longleftrightarrow> \<not> hasAnyMove (grid g') (pieces g')"
proof -
  let ?t = "timers w ! k"
  note tp = timer_means_placing [OF assms(1,3)]
  from tp(1) assms(4) have a: "a < length (heap w)" by simp
  then have "g \<in> set (heap w)" using assms(5) by simp
  with assms(2) tp(2) assms(4,5) show none: "gameOverMsg g = None"
    unfolding overSound_def by blast
  obtain h st' where r: "onTimeout (rows ?t) (cols ?t) d (g, bb_best w) = (h, st')"
    by (cases "onTimeout (rows ?t) (cols ?t) d (g, bb_best w)")
  with assms(3,4,5) have "heap (fireW k d w) = (heap w)[a := h]"
    by (simp add: fireW_def Let_def)
  with a assms(6) have g': "g' = h" by simp
  note o = onTimeout_over [OF r none]
  from o(3) g' show "grid g' = clearCells (grid g) (rows ?t) (cols ?t)" by simp
  from o(4) g' show "pieces g' = (if \<forall>x \<in> set (pieces g). x = None then freshTray d else pieces g)"
    by (simp only:)
  from o(2) g' show "\<not> placing g'" by simp
  from o(1) g' show "gameOverMsg g' \<noteq> None \<longleftrightarrow> \<not> hasAnyMove (grid g') (pieces g')"
    by (simp only:)
qed

lemma marker_after_drop:
  assumes "wfWorld w" and "overSound w"
    and "current w = Some a" and "g = heap w ! a" and "g' = heap (dropW r c d w) ! a"
    and "\<not> placing g" and "selIdx g = Some i" and "slot (pieces g) i = Some p"
    and "canPlace (grid g) p r c"
  shows "gameOverMsg g = None"
    and "lineCount (grid (place g i p r c)) = 0 \<Longrightarrow>
      grid g' = grid (place g i p r c) \<and>
      pieces g' = (if \<forall>x \<in> set ((pieces g)[i := None]). x = None then freshTray d
                   else (pieces g)[i := None]) \<and>
      \<not> placing g' \<and>
      (gameOverMsg g' \<noteq> None \<longleftrightarrow> \<not> hasAnyMove (grid g') (pieces g'))"
    and "lineCount (grid (place g i p r c)) \<noteq> 0 \<Longrightarrow>
      placing g' \<and> gameOverMsg g' = None \<and> grid g' = grid (place g i p r c)"
proof -
  let ?g = "place g i p r c"
  from assms(1,3) have a: "a < length (heap w)" by (simp add: wfWorld_def)
  with assms(4) have mem: "g \<in> set (heap w)" by simp
  with assms(1) have wf: "wfGame g" by (simp add: wfWorld_def)
  from no_move_refuses_drop [OF wf _ assms(8)] assms(9)
  have "hasAnyMove (grid g) (pieces g)" by blast
  with assms(2) mem show none: "gameOverMsg g = None"
    unfolding overSound_def by blast
  then have pn: "gameOverMsg ?g = None" by (simp add: place_def)
  obtain h st' pending where cl: "clearLines d (?g, bb_best w) = ((h, st'), pending)"
    by (cases "clearLines d (?g, bb_best w)") auto
  with assms(6-9) have "dropAt r c d (g, bb_best w) = Inr ((h, st'), pending)"
    by (simp add: dropAt_def)
  with assms(3,4) have "heap (dropW r c d w) = (heap w)[a := h]"
    by (simp add: dropW_def)
  with a assms(5) have g': "g' = h" by simp
  show "grid g' = grid ?g \<and>
      pieces g' = (if \<forall>x \<in> set ((pieces g)[i := None]). x = None then freshTray d
                   else (pieces g)[i := None]) \<and>
      \<not> placing g' \<and>
      (gameOverMsg g' \<noteq> None \<longleftrightarrow> \<not> hasAnyMove (grid g') (pieces g'))"
    if "lineCount (grid ?g) = 0"
  proof -
    let ?h = "?g\<lparr>streak := 0, comboText := []\<rparr>"
    from that cl have r: "doneCallback d (?h, bb_best w) = (h, st')"
      by (simp add: clearLines_none)
    from pn have "gameOverMsg ?h = None" by simp
    note o = doneCallback_over [OF r this]
    have ph: "pieces ?h = (pieces g)[i := None]" "grid ?h = grid ?g"
      by (simp_all add: place_def)
    from o(4) have "pieces h = (if \<forall>x \<in> set ((pieces g)[i := None]). x = None then freshTray d
        else (pieces g)[i := None])"
      by (simp only: ph)
    with o(1,2,3) ph(2) g' show ?thesis by (simp only:) simp
  qed
  show "placing g' \<and> gameOverMsg g' = None \<and> grid g' = grid ?g"
    if "lineCount (grid ?g) \<noteq> 0"
  proof -
    from clearLines_some [OF that cl] have "placing h = placing ?g" "gameOverMsg h = gameOverMsg ?g"
      "grid h = grid ?g"
      by (cases h; simp)+
    with pn g' show ?thesis by (simp add: place_def)
  qed
qed

lemma marker_kept:
  assumes "a < length (heap w)" and "g = heap w ! a" and "g' = heap (step w e) ! a"
    and "\<not> (\<exists>k d. e = TimerFires k d \<and> k < length (timers w) \<and> target (timers w ! k) = a)"
    and "\<not> (\<exists>r c d i p. e = Drop r c d \<and> current w = Some a \<and> \<not> placing g \<and>
           selIdx g = Some i \<and> slot (pieces g) i = Some p \<and> canPlace (grid g) p r c)"
  shows "gameOverMsg g' = gameOverMsg g"
proof (cases e)
  case (StartGame d)
  with assms(1,2,3) show ?thesis by (simp add: startGameW_def nth_append)
next
  case (SelectPiece idx)
  show ?thesis
  proof (cases "current w")
    case None
    with assms(2,3) SelectPiece show ?thesis by (simp add: selectPieceW_def)
  next
    case (Some b)
    with assms(1,2,3) SelectPiece show ?thesis
      by (cases "a = b") (simp_all add: selectPieceW_def selectPiece_def)
  qed
next
  case Escape
  show ?thesis
  proof (cases "current w")
    case None
    with assms(2,3) Escape show ?thesis by (simp add: escapeW_def)
  next
    case (Some b)
    with assms(1,2,3) Escape show ?thesis
      by (cases "a = b") (simp_all add: escapeW_def)
  qed
next
  case (Drop r c d)
  show ?thesis
  proof (cases "current w")
    case None
    with assms(2,3) Drop show ?thesis by (simp add: dropW_def)
  next
    case (Some b)
    show ?thesis
    proof (cases "dropAt r c d (heap w ! b, bb_best w)")
      case (Inl err)
      with Some assms(2,3) Drop show ?thesis by (simp add: dropW_def)
    next
      case (Inr res)
      obtain h st' pending where "res = ((h, st'), pending)" by (cases res) auto
      with Inr have r: "dropAt r c d (heap w ! b, bb_best w) = Inr ((h, st'), pending)" by simp
      with Some Drop have hp: "heap (step w e) = (heap w)[b := h]" by (simp add: dropW_def)
      show ?thesis
      proof (cases "a = b")
        case False
        with hp assms(2,3) show ?thesis by simp
      next
        case True
        with hp assms(1,3) have g': "g' = h" by simp
        from True assms(2) r have rg: "dropAt r c d (g, bb_best w) = Inr ((h, st'), pending)"
          by simp
        have "h = g"
        proof (cases "placing g \<or> selIdx g = None")
          case True
          with rg show ?thesis by (auto simp: dropAt_def split: if_splits)
        next
          case False
          then obtain i where i: "selIdx g = Some i" and np: "\<not> placing g" by auto
          show ?thesis
          proof (cases "slot (pieces g) i")
            case None
            with rg i np show ?thesis by (simp add: dropAt_def)
          next
            case (Some p)
            with assms(5) Drop \<open>current w = Some b\<close> True i np
            have "\<not> canPlace (grid g) p r c" by blast
            with rg i np Some show ?thesis by (simp add: dropAt_def)
          qed
        qed
        with g' show ?thesis by simp
      qed
    qed
  qed
next
  case (TimerFires k d)
  show ?thesis
  proof (cases "k < length (timers w)")
    case False
    with assms(2,3) TimerFires show ?thesis by (simp add: fireW_def)
  next
    case True
    let ?t = "timers w ! k"
    from assms(4) TimerFires True have ne: "target ?t \<noteq> a" by blast
    obtain h st' where "onTimeout (rows ?t) (cols ?t) d (heap w ! target ?t, bb_best w) = (h, st')"
      by (cases "onTimeout (rows ?t) (cols ?t) d (heap w ! target ?t, bb_best w)")
    with True TimerFires have "heap (step w e) = (heap w)[target ?t := h]"
      by (simp add: fireW_def Let_def)
    with ne assms(2,3) show ?thesis by simp
  qed
qed

text \<open>
  C4. In every state the page reaches, for every event and every game: a game that is
  declared over is not in a placement and no shape of its tray can be placed at any
  (row, col) of [0, 8) x [0, 8) on its grid. The marker is written when a placement
  completes and only then. When the timer of a clear fires, the game is declared over if
  and only if no shape of the tray, after the refill, can be placed on the grid after
  the clearing. When a legal drop completes no line, the game is declared over if and
  only if no shape of the tray, after the refill, can be placed on the grid after the
  placement; when it completes a line, the marker stays unset until the timer fires.
  Every other event (a new game, a selection, Escape, a drop that is refused, a timer
  of another game) leaves the marker as it is. Empty slots are skipped.
\<close>

theorem game_over_iff_no_legal_placement:
  assumes "\<forall>e \<in> set evs. validEvent e" and "w = run (initial st0) evs" and "validEvent e"
    and "a < length (heap w)" and "g = heap w ! a" and "g' = heap (step w e) ! a"
  shows
    "(gameOverMsg g \<noteq> None \<longrightarrow>
        \<not> placing g \<and>
        (\<forall>q x y. Some q \<in> set (pieces g) \<and> x < 8 \<and> y < 8 \<longrightarrow> \<not> canPlace (grid g) q (int x) (int y)))
     \<and> (\<forall>k d. e = TimerFires k d \<and> k < length (timers w) \<and> target (timers w ! k) = a \<longrightarrow>
          gameOverMsg g = None
          \<and> grid g' = clearCells (grid g) (rows (timers w ! k)) (cols (timers w ! k))
          \<and> pieces g' = (if \<forall>x \<in> set (pieces g). x = None then freshTray d else pieces g)
          \<and> \<not> placing g'
          \<and> (gameOverMsg g' \<noteq> None \<longleftrightarrow>
               (\<forall>q x y. Some q \<in> set (pieces g') \<and> x < 8 \<and> y < 8
                  \<longrightarrow> \<not> canPlace (grid g') q (int x) (int y))))
     \<and> (\<forall>r c d i p. e = Drop r c d \<and> current w = Some a \<and> \<not> placing g \<and> selIdx g = Some i
            \<and> slot (pieces g) i = Some p \<and> canPlace (grid g) p r c \<longrightarrow>
          gameOverMsg g = None
          \<and> (if lineCount (grid (place g i p r c)) = 0
              then grid g' = grid (place g i p r c)
                 \<and> pieces g' = (if \<forall>x \<in> set ((pieces g)[i := None]). x = None then freshTray d
                                 else (pieces g)[i := None])
                 \<and> \<not> placing g'
                 \<and> (gameOverMsg g' \<noteq> None \<longleftrightarrow>
                      (\<forall>q x y. Some q \<in> set (pieces g') \<and> x < 8 \<and> y < 8
                         \<longrightarrow> \<not> canPlace (grid g') q (int x) (int y)))
              else placing g' \<and> gameOverMsg g' = None \<and> grid g' = grid (place g i p r c)))
     \<and> (\<not> (\<exists>k d. e = TimerFires k d \<and> k < length (timers w) \<and> target (timers w ! k) = a)
          \<and> \<not> (\<exists>r c d i p. e = Drop r c d \<and> current w = Some a \<and> \<not> placing g
                 \<and> selIdx g = Some i \<and> slot (pieces g) i = Some p \<and> canPlace (grid g) p r c)
          \<longrightarrow> gameOverMsg g' = gameOverMsg g)"
proof -
  from assms(1,2) have wf: "wfWorld w" and sound: "overSound w"
    by (simp_all add: wfWorld_reachable overSound_reachable)
  from assms(2) have cons: "consistent w" by (simp add: consistent_reachable)
  from assms(4,5) have "g \<in> set (heap w)" by simp
  with sound have now: "gameOverMsg g \<noteq> None \<longrightarrow>
      \<not> placing g \<and>
      (\<forall>q x y. Some q \<in> set (pieces g) \<and> x < 8 \<and> y < 8 \<longrightarrow> \<not> canPlace (grid g) q (int x) (int y))"
    unfolding overSound_def no_move_iff by blast
  have timer: "gameOverMsg g = None
      \<and> grid g' = clearCells (grid g) (rows (timers w ! k)) (cols (timers w ! k))
      \<and> pieces g' = (if \<forall>x \<in> set (pieces g). x = None then freshTray d else pieces g)
      \<and> \<not> placing g'
      \<and> (gameOverMsg g' \<noteq> None \<longleftrightarrow>
           (\<forall>q x y. Some q \<in> set (pieces g') \<and> x < 8 \<and> y < 8
              \<longrightarrow> \<not> canPlace (grid g') q (int x) (int y)))"
    if "e = TimerFires k d" "k < length (timers w)" "target (timers w ! k) = a" for k d
  proof -
    from that(1) assms(6) have "g' = heap (fireW k d w) ! a" by simp
    from marker_after_timer [OF cons sound that(2,3) assms(5) this] show ?thesis
      unfolding no_move_iff by (simp only:) simp
  qed
  have drop: "gameOverMsg g = None
      \<and> (if lineCount (grid (place g i p r c)) = 0
          then grid g' = grid (place g i p r c)
             \<and> pieces g' = (if \<forall>x \<in> set ((pieces g)[i := None]). x = None then freshTray d
                             else (pieces g)[i := None])
             \<and> \<not> placing g'
             \<and> (gameOverMsg g' \<noteq> None \<longleftrightarrow>
                  (\<forall>q x y. Some q \<in> set (pieces g') \<and> x < 8 \<and> y < 8
                     \<longrightarrow> \<not> canPlace (grid g') q (int x) (int y)))
          else placing g' \<and> gameOverMsg g' = None \<and> grid g' = grid (place g i p r c))"
    if "e = Drop r c d" "current w = Some a" "\<not> placing g" "selIdx g = Some i"
      "slot (pieces g) i = Some p" "canPlace (grid g) p r c" for r c d i p
  proof -
    from that(1) assms(6) have "g' = heap (dropW r c d w) ! a" by simp
    note m = marker_after_drop [OF wf sound that(2) assms(5) this that(3-6)]
    show ?thesis
    proof (cases "lineCount (grid (place g i p r c)) = 0")
      case True
      with m(1) m(2) [OF True] show ?thesis
        unfolding no_move_iff by (simp only: if_True) simp
    next
      case False
      with m(1) m(3) [OF False] show ?thesis by (simp only: if_False)
    qed
  qed
  note kept = marker_kept [OF assms(4,5,6)]
  have t: "\<forall>k d. e = TimerFires k d \<and> k < length (timers w) \<and> target (timers w ! k) = a \<longrightarrow>
      gameOverMsg g = None
      \<and> grid g' = clearCells (grid g) (rows (timers w ! k)) (cols (timers w ! k))
      \<and> pieces g' = (if \<forall>x \<in> set (pieces g). x = None then freshTray d else pieces g)
      \<and> \<not> placing g'
      \<and> (gameOverMsg g' \<noteq> None \<longleftrightarrow>
           (\<forall>q x y. Some q \<in> set (pieces g') \<and> x < 8 \<and> y < 8
              \<longrightarrow> \<not> canPlace (grid g') q (int x) (int y)))"
    by (intro allI impI, elim conjE, rule timer)
  have d: "\<forall>r c d i p. e = Drop r c d \<and> current w = Some a \<and> \<not> placing g \<and> selIdx g = Some i
        \<and> slot (pieces g) i = Some p \<and> canPlace (grid g) p r c \<longrightarrow>
      gameOverMsg g = None
      \<and> (if lineCount (grid (place g i p r c)) = 0
          then grid g' = grid (place g i p r c)
             \<and> pieces g' = (if \<forall>x \<in> set ((pieces g)[i := None]). x = None then freshTray d
                             else (pieces g)[i := None])
             \<and> \<not> placing g'
             \<and> (gameOverMsg g' \<noteq> None \<longleftrightarrow>
                  (\<forall>q x y. Some q \<in> set (pieces g') \<and> x < 8 \<and> y < 8
                     \<longrightarrow> \<not> canPlace (grid g') q (int x) (int y)))
          else placing g' \<and> gameOverMsg g' = None \<and> grid g' = grid (place g i p r c))"
    by (intro allI impI, elim conjE, rule drop)
  have k: "\<not> (\<exists>k d. e = TimerFires k d \<and> k < length (timers w) \<and> target (timers w ! k) = a)
      \<and> \<not> (\<exists>r c d i p. e = Drop r c d \<and> current w = Some a \<and> \<not> placing g
             \<and> selIdx g = Some i \<and> slot (pieces g) i = Some p \<and> canPlace (grid g) p r c)
      \<longrightarrow> gameOverMsg g' = gameOverMsg g"
    by (intro impI, elim conjE, rule kept)
  from now t d k show ?thesis by (intro conjI)
qed

lemma squaresWorld_facts:
  "length (heap squaresWorld) = 1"
  "current squaresWorld = Some 0"
  "\<not> placing (heap squaresWorld ! 0)"
  "selIdx (heap squaresWorld ! 0) = Some 0"
  "slot (pieces (heap squaresWorld ! 0)) 0 = Some (PIECES ! 10)"
  "canPlace (grid (heap squaresWorld ! 0)) (PIECES ! 10) 3 3"
  "lineCount (grid (place (heap squaresWorld ! 0) 0 (PIECES ! 10) 3 3)) = 0"
  "gameOverMsg (heap (step squaresWorld (Drop 3 3 (0, 0, 0))) ! 0) = Some (36, True)"
  "pieces (heap (step squaresWorld (Drop 3 3 (0, 0, 0))) ! 0) = [None, Some (PIECES ! 10), Some (PIECES ! 10)]"
  by code_simp+

lemma pendingWorld_fired:
  "canPlace (grid (heap (step pendingWorld (TimerFires 0 (0, 0, 0))) ! 0)) (PIECES ! 0) 0 0"
  "pieces (heap (step pendingWorld (TimerFires 0 (0, 0, 0))) ! 0) = [None, None, Some (PIECES ! 0)]"
  by code_simp+

theorem game_over_iff_no_legal_placement_witness:
  "gameOverMsg (heap squaresWorld ! 0) = None
   \<and> canPlace (grid (heap squaresWorld ! 0)) (PIECES ! 10) 3 3
   \<and> gameOverMsg (heap (step squaresWorld (Drop 3 3 (0, 0, 0))) ! 0) = Some (36, True)
   \<and> \<not> placing (heap (step squaresWorld (Drop 3 3 (0, 0, 0))) ! 0)
   \<and> \<not> canPlace (grid (heap (step squaresWorld (Drop 3 3 (0, 0, 0))) ! 0)) (PIECES ! 10) 5 5
   \<and> gameOverMsg (heap (step squaresWorld (SelectPiece 1)) ! 0) = None
   \<and> placing (heap pendingWorld ! 0)
   \<and> canPlace (grid (heap (step pendingWorld (TimerFires 0 (0, 0, 0))) ! 0)) (PIECES ! 0) 0 0
   \<and> \<not> placing (heap (step pendingWorld (TimerFires 0 (0, 0, 0))) ! 0)
   \<and> gameOverMsg (heap (step pendingWorld (TimerFires 0 (0, 0, 0))) ! 0) = None"
proof -
  let ?d = "Drop 3 3 (0, 0, 0)" and ?f = "TimerFires 0 (0, 0, 0)"
  let ?g = "heap squaresWorld ! 0" and ?g' = "heap (step squaresWorld ?d) ! 0"
  let ?h = "heap pendingWorld ! 0" and ?h' = "heap (step pendingWorld ?f) ! 0"
  have vs: "\<forall>e \<in> set [StartGame (10, 10, 10), SelectPiece 0, Drop 0 0 (0, 0, 0), SelectPiece 1,
      Drop 0 3 (0, 0, 0), SelectPiece 2, Drop 3 0 (10, 10, 10), SelectPiece 0]. validEvent e"
    and vp: "\<forall>e \<in> set [StartGame (7, 3, 0), SelectPiece 0, Drop 0 0 (0, 0, 0), SelectPiece 1,
      Drop 0 5 (0, 0, 0)]. validEvent e"
    and ve: "validEvent ?d" "validEvent ?f" "validEvent (SelectPiece 1)"
    by (simp_all add: validDraws_def length_PIECES)
  have a: "0 < length (heap squaresWorld)" "0 < length (heap pendingWorld)"
    by (simp_all add: squaresWorld_facts pendingWorld_facts)
  \<comment> \<open>the drop that fills the last place for a square\<close>
  note c4 = game_over_iff_no_legal_placement [OF vs squaresWorld_def ve(1) a(1) refl refl]
  note dr = c4 [THEN conjunct2, THEN conjunct2, THEN conjunct1, rule_format,
      of 3 3 "(0, 0, 0)" 0 "PIECES ! 10"]
  from squaresWorld_facts(2-6) have legal: "?d = Drop 3 3 (0, 0, 0) \<and> current squaresWorld = Some 0
      \<and> \<not> placing ?g \<and> selIdx ?g = Some 0 \<and> slot (pieces ?g) 0 = Some (PIECES ! 10)
      \<and> canPlace (grid ?g) (PIECES ! 10) 3 3"
    by simp
  from dr [OF legal] have none: "gameOverMsg ?g = None" by (rule conjunct1)
  have branch: "(if lineCount (grid (place ?g 0 (PIECES ! 10) 3 3)) = 0 then P else Q) = P" for P Q
    by (simp only: squaresWorld_facts(7) refl if_True)
  note noline = dr [OF legal, THEN conjunct2, unfolded branch]
  note after = noline [THEN conjunct2, THEN conjunct2, THEN conjunct1]
    noline [THEN conjunct2, THEN conjunct2, THEN conjunct2]
  from squaresWorld_facts(8) have "gameOverMsg ?g' \<noteq> None" by simp
  note after(2) [THEN iffD1, OF this]
  then have "Some (PIECES ! 10) \<in> set (pieces ?g') \<and> (5::nat) < 8 \<and> (5::nat) < 8
      \<longrightarrow> \<not> canPlace (grid ?g') (PIECES ! 10) (int 5) (int 5)"
    by blast
  moreover have "Some (PIECES ! 10) \<in> set (pieces ?g')"
    unfolding squaresWorld_facts(9) by simp
  ultimately have stuck: "\<not> canPlace (grid ?g') (PIECES ! 10) 5 5"
    by simp
  \<comment> \<open>selecting leaves the marker\<close>
  note s4 = game_over_iff_no_legal_placement [OF vs squaresWorld_def ve(3) a(1) refl refl]
  from s4 [THEN conjunct2, THEN conjunct2, THEN conjunct2] none
  have kept: "gameOverMsg (heap (step squaresWorld (SelectPiece 1)) ! 0) = None"
    by simp
  \<comment> \<open>the timer of the clear fires\<close>
  note t4 = game_over_iff_no_legal_placement [OF vp pendingWorld_def ve(2) a(2) refl refl]
  note ti = t4 [THEN conjunct2, THEN conjunct1, rule_format, of 0 "(0, 0, 0)"]
  have "?f = TimerFires 0 (0, 0, 0) \<and> 0 < length (timers pendingWorld)
      \<and> target (timers pendingWorld ! 0) = 0"
    by (simp add: pendingWorld_facts)
  note fired = ti [OF this]
  from fired have np: "\<not> placing ?h'" by blast
  from fired have iff: "gameOverMsg ?h' \<noteq> None \<longleftrightarrow>
      (\<forall>q x y. Some q \<in> set (pieces ?h') \<and> x < 8 \<and> y < 8 \<longrightarrow> \<not> canPlace (grid ?h') q (int x) (int y))"
    by blast
  have "Some (PIECES ! 0) \<in> set (pieces ?h') \<and> (0::nat) < 8 \<and> (0::nat) < 8
      \<and> canPlace (grid ?h') (PIECES ! 0) (int 0) (int 0)"
    using pendingWorld_fired by simp
  with iff have open_game: "gameOverMsg ?h' = None" by blast
  from none squaresWorld_facts(6,8) after(1) stuck kept pendingWorld_facts(3) pendingWorld_fired(1)
    np open_game
  show ?thesis by simp
qed

end
